theory Spec2Isabelle
  imports Complex_Main
begin

section \<open>The nearest-neighbour TSP search of \<open>tsp.c\<close>\<close>

text \<open>
  The program reads a list of cities, fills a symmetric matrix of rounded Euclidean
  distances, and for every start city of a range builds the greedy nearest-neighbour
  tour; the range is cut into one slice per thread and the shortest tour found wins.

  Conventions of the embedding.
  \<^item> A C \<open>int\<close> is an Isabelle \<open>int\<close>, without a bound; the constant \<open>INT_MAX\<close>
    keeps its value, because the code compares against it. Signed overflow is
    undefined in C and has no counterpart here: \<open>coords_fit\<close> names the coordinates
    for which \<open>delx*delx + dely*dely\<close> stays within \<open>int\<close>, and with at most 46340
    such cities no tour cost leaves \<open>int\<close> either (lemma \<open>tour_cost_fits\<close>).
  \<^item> The \<open>double\<close> expression \<open>sqrt(n) + 0.5\<close> is read over the reals. Lemma
    \<open>round_sqrt_fl_exact\<close> shows that rounding the square root and the sum, with a
    relative error of up to \<open>2\<^sup>-\<^sup>4\<^sup>0\<close> each, gives the same \<open>int\<close> for every
    \<open>n\<close> from 0 to \<open>INT_MAX\<close>.
  \<^item> Behaviour that C++ leaves undefined, an uncaught exception, a failed
    \<open>assert\<close> and \<open>exit(-1)\<close> are values of the type \<open>error\<close>.
  \<^item> \<open>time(NULL)\<close> is an oracle: \<open>clock E c\<close> is the time read by the check that
    guards start city \<open>c\<close>.
  \<^item> Threads share only the read-only cities, matrix and stop time, and the global
    best, which is touched under the mutex alone. A run is therefore given by the
    order in which the threads take the mutex.
\<close>

subsection \<open>Constants and errors\<close>

definition INT_MAX :: int where
  "INT_MAX = 2147483647"

datatype error =
    StartCityExceeds    \<comment> \<open>\<open>"Start city exceeds city count"\<close>, then \<open>exit(-1)\<close>\<close>
  | AssertionFailed     \<comment> \<open>\<open>assert(closest != -1)\<close>\<close>
  | OutOfBounds         \<comment> \<open>a vector indexed outside its size (undefined)\<close>
  | DivisionByZero      \<comment> \<open>integer division by zero (undefined)\<close>
  | LengthError         \<comment> \<open>\<open>std::vector\<close> built with a negative size\<close>
  | NullPointer         \<comment> \<open>a member called through a null \<open>Path*\<close> (undefined)\<close>

text \<open>The only error the program itself reports as a configuration error.\<close>

definition reports_config_error :: "error + 'a \<Rightarrow> bool" where
  "reports_config_error r = (r = Inl StartCityExceeds)"

text \<open>C's \<open>/\<close> on \<open>int\<close> truncates towards zero.\<close>

definition c_div :: "int \<Rightarrow> int \<Rightarrow> int" where
  "c_div a b = sgn a * sgn b * (\<bar>a\<bar> div \<bar>b\<bar>)"

subsection \<open>Cities and the cost matrix\<close>

text \<open>\<open>struct City\<close>: the fields \<open>x\<close>, \<open>y\<close>, named after the constructor's arguments.\<close>

record City =
  xval :: int
  yval :: int

text \<open>\<open>class Cost\<close>: \<open>std::vector<std::vector<int>> matrix\<close>.\<close>

type_synonym Cost = "int list list"

definition resize :: "nat \<Rightarrow> Cost" where
  "resize sz = replicate sz (replicate sz 0)"

definition getCost :: "Cost \<Rightarrow> int \<Rightarrow> int \<Rightarrow> int" where
  "getCost matrix r c = matrix ! nat r ! nat c"

definition setCost :: "Cost \<Rightarrow> nat \<Rightarrow> nat \<Rightarrow> int \<Rightarrow> Cost" where
  "setCost matrix r c cost = matrix[r := (matrix ! r)[c := cost]]"

text \<open>\<open>sqrt(n) + 0.5\<close> stored into an \<open>int\<close>: the conversion drops the fraction.\<close>

definition round_sqrt :: "int \<Rightarrow> int" where
  "round_sqrt n = \<lfloor>sqrt (real_of_int n) + 1 / 2\<rfloor>"

text \<open>
  The same with every \<open>double\<close> operation rounded by \<open>fl\<close>, and roundings whose
  relative error is at most \<open>eps\<close> (round-to-nearest of binary64 has \<open>2\<^sup>-\<^sup>5\<^sup>3\<close>).
\<close>

definition round_sqrt_fl :: "(real \<Rightarrow> real) \<Rightarrow> int \<Rightarrow> int" where
  "round_sqrt_fl fl n = \<lfloor>fl (fl (sqrt (real_of_int n)) + 1 / 2)\<rfloor>"

definition rel_error :: "(real \<Rightarrow> real) \<Rightarrow> real \<Rightarrow> bool" where
  "rel_error fl eps = (\<forall>v. \<bar>fl v - v\<bar> \<le> eps * \<bar>v\<bar>)"

text \<open>
  The body of the inner loop of \<open>Cities::initCosts\<close>. The \<open>int\<close> expression
  \<open>delx*delx + dely*dely\<close> is formed without a bound: it is the value of the C
  expression exactly when that does not overflow, which is \<open>coords_fit\<close> below, the
  hypothesis of every theorem that reads an entry of the matrix.
\<close>

definition cost_cell :: "City list \<Rightarrow> nat \<Rightarrow> nat \<Rightarrow> Cost \<Rightarrow> Cost" where
  "cost_cell city_vec r c matrix =
     (let delx = xval (city_vec ! r) - xval (city_vec ! c);
          dely = yval (city_vec ! r) - yval (city_vec ! c);
          m1 = setCost matrix r c (round_sqrt (delx * delx + dely * dely))
      in setCost m1 c r (m1 ! r ! c))"

definition initCosts :: "City list \<Rightarrow> Cost" where
  "initCosts city_vec =
     (let num_cities = length city_vec
      in fold (\<lambda>r. fold (cost_cell city_vec r) [r..<num_cities])
           [0..<num_cities] (resize num_cities))"

subsection \<open>The tour builder\<close>

record Path =
  path :: "int list"
  pathcost :: int

definition new_Path :: Path where
  "new_Path = \<lparr>path = [], pathcost = 0\<rparr>"

text \<open>The locals of \<open>Path::calcPath\<close> together with the object it fills.\<close>

record calc_state =
  inpath :: "bool list"
  curr_city :: int
  self :: Path

text \<open>One turn of the scan of row \<open>curr_city\<close>, on the pair \<open>(closest, closest_cost)\<close>.\<close>

definition scan_step :: "Cost \<Rightarrow> bool list \<Rightarrow> int \<Rightarrow> nat \<Rightarrow> int \<times> int \<Rightarrow> int \<times> int" where
  "scan_step cm inp cur ix = (\<lambda>(closest, closest_cost).
     if \<not> inp ! ix \<and> getCost cm cur (int ix) < closest_cost
     then (int ix, getCost cm cur (int ix))
     else (closest, closest_cost))"

definition scan_row :: "Cost \<Rightarrow> nat \<Rightarrow> bool list \<Rightarrow> int \<Rightarrow> int \<times> int" where
  "scan_row cm n inp cur = fold (scan_step cm inp cur) [0..<n] (- 1, INT_MAX)"

text \<open>The body of the outer loop: pick the closest city, assert, append.\<close>

definition calc_step :: "Cost \<Rightarrow> nat \<Rightarrow> calc_state \<Rightarrow> error + calc_state" where
  "calc_step cm n st =
     (let closest = fst (scan_row cm n (inpath st) (curr_city st))
      in if closest = - 1 then Inl AssertionFailed
         else Inr \<lparr>inpath = (inpath st)[nat closest := True],
                   curr_city = closest,
                   self = \<lparr>path = path (self st) @ [closest],
                            pathcost = pathcost (self st) + getCost cm (curr_city st) closest\<rparr>\<rparr>)"

fun calc_loop :: "Cost \<Rightarrow> nat \<Rightarrow> nat list \<Rightarrow> calc_state \<Rightarrow> error + calc_state" where
  "calc_loop cm n [] st = Inr st"
| "calc_loop cm n (i # is) st =
     (case calc_step cm n st of
        Inl e \<Rightarrow> Inl e
      | Inr st' \<Rightarrow> calc_loop cm n is st')"

text \<open>
  \<open>Path::calcPath(c, start_city)\<close> on the object \<open>pth\<close>, with the global matrix \<open>cm\<close>.
  The result is the object afterwards; the value returned is its \<open>pathcost\<close>.
  \<open>inpath[start_city]\<close> outside the vector is undefined.
\<close>

definition calcPath :: "Cost \<Rightarrow> City list \<Rightarrow> int \<Rightarrow> Path \<Rightarrow> error + Path" where
  "calcPath cm c start_city pth =
     (let n = length c
      in if start_city < 0 \<or> int n \<le> start_city then Inl OutOfBounds
         else
           (case calc_loop cm n [1..<n]
                   \<lparr>inpath = (replicate n False)[nat start_city := True],
                    curr_city = start_city,
                    self = pth\<lparr>path := path pth @ [start_city]\<rparr>\<rparr> of
              Inl e \<Rightarrow> Inl e
            | Inr st \<Rightarrow>
                Inr ((self st)\<lparr>pathcost :=
                       pathcost (self st) + getCost cm (curr_city st) start_city\<rparr>)))"

subsection \<open>Threads\<close>

text \<open>\<open>bounds_t\<close>: the fields \<open>start\<close> and \<open>end\<close>.\<close>

record bounds_t =
  b_start :: int
  b_end :: int

text \<open>What every thread reads and never writes.\<close>

record env =
  cities :: "City list"
  cost_matrix :: Cost
  global_stop_time :: int
  clock :: "int \<Rightarrow> int"

text \<open>The globals written under the mutex; \<open>None\<close> is the null pointer.\<close>

record best =
  global_best_length :: int
  global_best_path :: "Path option"

text \<open>
  The locals of \<open>runthread\<close>. \<open>evaluated\<close> is a history variable: the start cities
  on which \<open>calcPath\<close> has been called, in order.
\<close>

record worker =
  local_best_length :: int
  local_best_path :: "Path option"
  evaluated :: "int list"

text \<open>
  The \<open>for\<close> loop of \<open>runthread\<close>. An error carries the history up to the failing call.
\<close>

function run_loop :: "env \<Rightarrow> int \<Rightarrow> int \<Rightarrow> worker \<Rightarrow> (error \<times> int list) + worker" where
  "run_loop E start_city e loc =
     (if start_city < e then
        (if global_stop_time E > 0 \<and> clock E start_city > global_stop_time E then Inr loc
         else
           (case calcPath (cost_matrix E) (cities E) start_city new_Path of
              Inl err \<Rightarrow> Inl (err, evaluated loc @ [start_city])
            | Inr pth \<Rightarrow>
                run_loop E (start_city + 1) e
                  (if pathcost pth < local_best_length loc
                   then \<lparr>local_best_length = pathcost pth,
                         local_best_path = Some pth,
                         evaluated = evaluated loc @ [start_city]\<rparr>
                   else loc\<lparr>evaluated := evaluated loc @ [start_city]\<rparr>)))
      else Inr loc)"
  by pat_completeness auto
termination
  by (relation "measure (\<lambda>(E, start_city, e, loc). nat (e - start_city))") auto

declare run_loop.simps [simp del]

text \<open>The two guards at the top of \<open>runthread\<close>.\<close>

definition clamp_end :: "int \<Rightarrow> bounds_t \<Rightarrow> bounds_t" where
  "clamp_end sz b = (if b_end b > sz then b\<lparr>b_end := sz\<rparr> else b)"

definition runthread_local :: "env \<Rightarrow> bounds_t \<Rightarrow> (error \<times> int list) + worker" where
  "runthread_local E b =
     (let sz = int (length (cities E))
      in if b_start b > sz then Inl (StartCityExceeds, [])
         else
           (let b' = clamp_end sz b
            in run_loop E (b_start b') (b_end b')
                 \<lparr>local_best_length = INT_MAX, local_best_path = None, evaluated = []\<rparr>))"

text \<open>The start cities the \<open>for\<close> loop of a thread runs through, after the clamp.\<close>

definition loop_range :: "int \<Rightarrow> bounds_t \<Rightarrow> int list" where
  "loop_range sz b = (let b' = clamp_end sz b in [b_start b'..b_end b' - 1])"

text \<open>The block of \<open>runthread\<close> between lock and unlock.\<close>

definition offer :: "worker \<Rightarrow> best \<Rightarrow> best" where
  "offer loc g =
     (if local_best_length loc < global_best_length g
      then \<lparr>global_best_length = local_best_length loc,
            global_best_path = local_best_path loc\<rparr>
      else g)"

text \<open>Threads in the order they take the mutex; the first error ends the process.\<close>

fun run_threads :: "env \<Rightarrow> bounds_t list \<Rightarrow> best \<Rightarrow> error + best" where
  "run_threads E [] g = Inr g"
| "run_threads E (b # bs) g =
     (case runthread_local E b of
        Inl (e, h) \<Rightarrow> Inl e
      | Inr loc \<Rightarrow> run_threads E bs (offer loc g))"

subsection \<open>The main program\<close>

text \<open>The bounds \<open>main\<close> stores for thread \<open>i\<close>.\<close>

definition thread_bounds :: "int \<Rightarrow> int \<Rightarrow> int \<Rightarrow> nat \<Rightarrow> bounds_t" where
  "thread_bounds sz start_city num_threads i =
     (let range = c_div (sz - start_city) num_threads;
          st = int i * range + start_city
      in \<lparr>b_start = st,
          b_end = (if int i = num_threads - 1 then sz + 1 else st + range)\<rparr>)"

text \<open>
  From the filled city vector to the join of all threads: the globals at that point.
  \<open>program_env\<close> is what the threads read once \<open>initCosts\<close> has run;
  \<open>order\<close> lists the threads in the order they take the mutex.
\<close>

definition program_env :: "City list \<Rightarrow> int \<Rightarrow> (int \<Rightarrow> int) \<Rightarrow> env" where
  "program_env city_vec stop_time clk =
     \<lparr>cities = city_vec, cost_matrix = initCosts city_vec,
      global_stop_time = stop_time, clock = clk\<rparr>"

definition search :: "City list \<Rightarrow> int \<Rightarrow> int \<Rightarrow> int \<Rightarrow> (int \<Rightarrow> int) \<Rightarrow> nat list \<Rightarrow> error + best" where
  "search city_vec start_city num_threads stop_time clk order =
     (if num_threads < 0 then Inl LengthError
      else if num_threads = 0 then Inl DivisionByZero
      else
        (let E = program_env city_vec stop_time clk;
             bounds = map (thread_bounds (int (length city_vec)) start_city num_threads)
                        [0..<nat num_threads]
         in run_threads E (map (\<lambda>i. bounds ! i) order)
              \<lparr>global_best_length = INT_MAX, global_best_path = None\<rparr>))"

text \<open>\<open>global_best_path->printPath(outfile)\<close>: the tour printed, or the failure.\<close>

definition tsp_main :: "City list \<Rightarrow> int \<Rightarrow> int \<Rightarrow> int \<Rightarrow> (int \<Rightarrow> int) \<Rightarrow> nat list \<Rightarrow> error + Path" where
  "tsp_main city_vec start_city num_threads stop_time clk order =
     (case search city_vec start_city num_threads stop_time clk order of
        Inl e \<Rightarrow> Inl e
      | Inr g \<Rightarrow>
          (case global_best_path g of
             None \<Rightarrow> Inl NullPointer
           | Some p \<Rightarrow> Inr p))"

section \<open>Notions used to state the properties\<close>

subsection \<open>Distances\<close>

text \<open>The integer \<open>delx*delx + dely*dely\<close> for the cities at positions \<open>i\<close> and \<open>j\<close>.\<close>

definition dist2 :: "City list \<Rightarrow> nat \<Rightarrow> nat \<Rightarrow> int" where
  "dist2 cs i j =
     (xval (cs ! i) - xval (cs ! j)) * (xval (cs ! i) - xval (cs ! j))
   + (yval (cs ! i) - yval (cs ! j)) * (yval (cs ! i) - yval (cs ! j))"

text \<open>The Euclidean distance of two cities.\<close>

definition euclid :: "City \<Rightarrow> City \<Rightarrow> real" where
  "euclid a b =
     sqrt ((real_of_int (xval a) - real_of_int (xval b))\<^sup>2
         + (real_of_int (yval a) - real_of_int (yval b))\<^sup>2)"

text \<open>
  The coordinates for which forming \<open>delx*delx + dely*dely\<close> does not overflow an
  \<open>int\<close>.
\<close>

definition coords_fit :: "City list \<Rightarrow> bool" where
  "coords_fit cs = (\<forall>i<length cs. \<forall>j<length cs. dist2 cs i j \<le> INT_MAX)"

text \<open>A matrix of \<open>n\<close> rows of \<open>n\<close> entries, and one whose entries are below \<open>INT_MAX\<close>.\<close>

definition square :: "nat \<Rightarrow> Cost \<Rightarrow> bool" where
  "square n m = (length m = n \<and> (\<forall>i<n. length (m ! i) = n))"

definition small_costs :: "Cost \<Rightarrow> nat \<Rightarrow> bool" where
  "small_costs cm n = (\<forall>r<n. \<forall>c<n. cm ! r ! c < INT_MAX)"

subsection \<open>Tours\<close>

text \<open>
  City \<open>c\<close> is the choice of the greedy step at city \<open>cur\<close>: it is unvisited, no
  unvisited city is closer to \<open>cur\<close>, and among the unvisited cities at that distance
  it has the lowest index.
\<close>

definition greedy_choice :: "Cost \<Rightarrow> nat \<Rightarrow> int set \<Rightarrow> int \<Rightarrow> int \<Rightarrow> bool" where
  "greedy_choice cm n visited cur c =
     (0 \<le> c \<and> c < int n \<and> c \<notin> visited \<and>
      (\<forall>j. 0 \<le> j \<and> j < int n \<and> j \<notin> visited \<longrightarrow>
           getCost cm cur c \<le> getCost cm cur j \<and>
           (getCost cm cur j = getCost cm cur c \<longrightarrow> c \<le> j)))"

text \<open>The invariant of the scan of a row, after the indices below \<open>k\<close>.\<close>

definition scan_inv :: "Cost \<Rightarrow> bool list \<Rightarrow> int \<Rightarrow> nat \<Rightarrow> int \<times> int \<Rightarrow> bool" where
  "scan_inv cm inp cur k s =
     (case s of (cl, cc) \<Rightarrow>
        (cl = - 1 \<and> cc = INT_MAX \<and> (\<forall>ix<k. \<not> inp ! ix \<longrightarrow> INT_MAX \<le> getCost cm cur (int ix)))
      \<or> (0 \<le> cl \<and> cl < int k \<and> \<not> inp ! nat cl \<and> cc = getCost cm cur cl \<and> cc < INT_MAX \<and>
         (\<forall>ix<k. \<not> inp ! ix \<longrightarrow>
             cc < getCost cm cur (int ix) \<or> (cc = getCost cm cur (int ix) \<and> cl \<le> int ix))))"

text \<open>The invariant of the outer loop of \<open>calcPath\<close>, after \<open>k\<close> cities were appended.\<close>

definition tour_inv :: "Cost \<Rightarrow> nat \<Rightarrow> int \<Rightarrow> nat \<Rightarrow> calc_state \<Rightarrow> bool" where
  "tour_inv cm n start k st =
     (let p = path (self st) in
        length p = Suc k \<and> p ! 0 = start \<and> distinct p \<and> set p \<subseteq> {0..<int n} \<and>
        length (inpath st) = n \<and> (\<forall>ix<n. inpath st ! ix \<longleftrightarrow> int ix \<in> set p) \<and>
        curr_city st = last p \<and>
        pathcost (self st) = (\<Sum>j<k. getCost cm (p ! j) (p ! Suc j)) \<and>
        (\<forall>j. 1 \<le> j \<and> j \<le> k \<longrightarrow>
             greedy_choice cm n (set (take j p)) (p ! (j - 1)) (p ! j)))"

text \<open>
  What \<open>calcPath\<close> leaves in a fresh \<open>Path\<close>: a permutation of the cities that
  starts at \<open>start\<close>, its cost, and a greedy choice at every position.
\<close>

definition is_tour :: "Cost \<Rightarrow> nat \<Rightarrow> int \<Rightarrow> Path \<Rightarrow> bool" where
  "is_tour cm n start p =
     (length (path p) = n \<and> path p ! 0 = start \<and> distinct (path p) \<and>
      set (path p) = {0..<int n} \<and>
      pathcost p = (\<Sum>j<n - 1. getCost cm (path p ! j) (path p ! Suc j))
                    + getCost cm (path p ! (n - 1)) (path p ! 0) \<and>
      (\<forall>j. 1 \<le> j \<and> j < n \<longrightarrow>
           greedy_choice cm n (set (take j (path p))) (path p ! (j - 1)) (path p ! j)))"

subsection \<open>Threads\<close>

text \<open>The test that makes a thread leave its loop before start city \<open>c\<close>.\<close>

definition deadline_passed :: "env \<Rightarrow> int \<Rightarrow> bool" where
  "deadline_passed E c = (global_stop_time E > 0 \<and> clock E c > global_stop_time E)"

text \<open>The tour \<open>calcPath\<close> builds from start city \<open>c\<close>, and its cost.\<close>

definition tour_from :: "env \<Rightarrow> int \<Rightarrow> Path" where
  "tour_from E c = projr (calcPath (cost_matrix E) (cities E) c new_Path)"

definition tour_cost :: "env \<Rightarrow> int \<Rightarrow> int" where
  "tour_cost E c = pathcost (tour_from E c)"

text \<open>One turn of the loop of \<open>runthread\<close> that passes the test, in closed form.\<close>

definition adopt :: "env \<Rightarrow> int \<Rightarrow> worker \<Rightarrow> worker" where
  "adopt E c loc =
     (if tour_cost E c < local_best_length loc
      then \<lparr>local_best_length = tour_cost E c, local_best_path = Some (tour_from E c),
            evaluated = evaluated loc @ [c]\<rparr>
      else loc\<lparr>evaluated := evaluated loc @ [c]\<rparr>)"

text \<open>The locals of \<open>runthread\<close> before its loop.\<close>

definition init_worker :: worker where
  "init_worker = \<lparr>local_best_length = INT_MAX, local_best_path = None, evaluated = []\<rparr>"

text \<open>
  An order in which the \<open>num_threads\<close> threads take the mutex: every thread once.
\<close>

definition schedule :: "int \<Rightarrow> nat list \<Rightarrow> bool" where
  "schedule num_threads order = (distinct order \<and> set order = {0..<nat num_threads})"

subsection \<open>Scenario A of the specification\<close>

definition scenario_A :: "City list" where
  "scenario_A = [\<lparr>xval = 0, yval = 0\<rparr>, \<lparr>xval = 0, yval = 3\<rparr>,
                 \<lparr>xval = 4, yval = 3\<rparr>, \<lparr>xval = 4, yval = 0\<rparr>]"

section \<open>Partitioning the start cities\<close>

lemma c_div_nonneg: "0 \<le> a \<Longrightarrow> 0 < b \<Longrightarrow> c_div a b = a div b"
  by (cases "a = 0") (simp_all add: c_div_def)

lemma upto_join: "a \<le> b \<Longrightarrow> b \<le> c \<Longrightarrow> [a..b - 1] @ [b..c - 1] = [a..c - 1]"
proof -
  assume ab: "a \<le> b" and bc: "b \<le> c"
  show ?thesis
  proof (cases "b = c")
    case True
    then show ?thesis by simp
  next
    case False
    with bc have "b \<le> c - 1" by simp
    with ab show ?thesis by (simp add: upto_split1 [of a b "c - 1"])
  qed
qed

lemma range_times_le:
  assumes "0 \<le> d" "0 < w" "k \<le> w" "0 \<le> k"
  shows "k * (d div w) \<le> (d::int)"
proof -
  have "0 \<le> d div w" using assms by (simp add: pos_imp_zdiv_nonneg_iff)
  then have "k * (d div w) \<le> w * (d div w)" using assms by (simp add: mult_right_mono)
  also have "\<dots> \<le> d"
    using assms
    by (metis mult.commute div_mult_mod_eq add.commute le_add_same_cancel2 pos_mod_sign)
  finally show ?thesis .
qed

lemma thread_bounds_start:
  "s \<le> sz \<Longrightarrow> 1 \<le> w \<Longrightarrow>
   b_start (thread_bounds sz s w i) = int i * ((sz - s) div w) + s"
  by (simp add: thread_bounds_def c_div_nonneg Let_def)

lemma thread_bounds_end:
  "s \<le> sz \<Longrightarrow> 1 \<le> w \<Longrightarrow>
   b_end (thread_bounds sz s w i) =
     (if int i = w - 1 then sz + 1 else (int i + 1) * ((sz - s) div w) + s)"
  by (simp add: thread_bounds_def c_div_nonneg Let_def algebra_simps)

lemma clamped_start: "b_start (clamp_end sz b) = b_start b"
  by (simp add: clamp_end_def)

lemma clamped_end:
  assumes "s \<le> sz" "1 \<le> w" "i < nat w"
  shows "b_end (clamp_end sz (thread_bounds sz s w i)) =
     (if int i = w - 1 then sz else (int i + 1) * ((sz - s) div w) + s)"
proof (cases "int i = w - 1")
  case True
  then show ?thesis using assms by (simp add: clamp_end_def thread_bounds_end)
next
  case False
  have "(int i + 1) * ((sz - s) div w) \<le> sz - s"
    using assms False by (intro range_times_le) auto
  then show ?thesis using assms False by (simp add: clamp_end_def thread_bounds_end)
qed

lemma loop_range_inner:
  assumes "s \<le> sz" "1 \<le> w" "int i < w - 1"
  shows "loop_range sz (thread_bounds sz s w i) =
     [int i * ((sz - s) div w) + s..(int i + 1) * ((sz - s) div w) + s - 1]"
proof -
  have "i < nat w" using assms by simp
  then show ?thesis
    using assms clamped_end [of s sz w i]
    by (simp add: loop_range_def Let_def clamped_start thread_bounds_start)
qed

lemma loop_range_last:
  assumes "s \<le> sz" "1 \<le> w" "int i = w - 1"
  shows "loop_range sz (thread_bounds sz s w i) = [int i * ((sz - s) div w) + s..sz - 1]"
proof -
  have "i < nat w" using assms by simp
  then show ?thesis
    using assms clamped_end [of s sz w i]
    by (simp add: loop_range_def Let_def clamped_start thread_bounds_start)
qed

lemma concat_inner:
  assumes "s \<le> sz" "1 \<le> w"
  shows "int k \<le> w - 1 \<Longrightarrow>
    concat (map (\<lambda>i. loop_range sz (thread_bounds sz s w i)) [0..<k]) =
      [s..int k * ((sz - s) div w) + s - 1]"
proof (induction k)
  case 0
  then show ?case by simp
next
  case (Suc k)
  let ?r = "(sz - s) div w"
  have r0: "0 \<le> ?r" using assms by (simp add: pos_imp_zdiv_nonneg_iff)
  have a: "s \<le> int k * ?r + s" using r0 by simp
  have b: "int k * ?r + s \<le> (int k + 1) * ?r + s" using r0 by (simp add: algebra_simps)
  have "concat (map (\<lambda>i. loop_range sz (thread_bounds sz s w i)) [0..<Suc k]) =
        [s..int k * ?r + s - 1] @ [int k * ?r + s..(int k + 1) * ?r + s - 1]"
    using Suc assms by (simp add: loop_range_inner)
  also have "\<dots> = [s..(int k + 1) * ?r + s - 1]"
    using a b by (rule upto_join)
  finally show ?case by (simp add: algebra_simps)
qed

lemma partition_exact:
  assumes "s \<le> sz" "1 \<le> w"
  shows "concat (map (\<lambda>i. loop_range sz (thread_bounds sz s w i)) [0..<nat w]) = [s..sz - 1]"
proof -
  let ?r = "(sz - s) div w"
  obtain k where k: "nat w = Suc k" using assms by (cases "nat w") auto
  then have kw: "int k = w - 1" by linarith
  have r0: "0 \<le> ?r" using assms by (simp add: pos_imp_zdiv_nonneg_iff)
  have a: "s \<le> int k * ?r + s" using r0 by simp
  have "int k * ?r \<le> sz - s" using assms kw by (intro range_times_le) auto
  then have b: "int k * ?r + s \<le> sz" by simp
  have "concat (map (\<lambda>i. loop_range sz (thread_bounds sz s w i)) [0..<nat w]) =
        [s..int k * ?r + s - 1] @ [int k * ?r + s..sz - 1]"
    using assms kw by (simp add: k concat_inner loop_range_last)
  also have "\<dots> = [s..sz - 1]" using a b by (rule upto_join)
  finally show ?thesis .
qed




section \<open>The scan of a row\<close>

lemma scan_inv_step:
  assumes "scan_inv cm inp cur k s"
  shows "scan_inv cm inp cur (Suc k) (scan_step cm inp cur k s)"
proof -
  obtain cl cc where s: "s = (cl, cc)" by (cases s)
  show ?thesis
    using assms unfolding s scan_inv_def scan_step_def
    by (auto simp: less_Suc_eq)
qed

lemma scan_inv_fold: "scan_inv cm inp cur k (fold (scan_step cm inp cur) [0..<k] (- 1, INT_MAX))"
proof (induction k)
  case 0
  show ?case by (simp add: scan_inv_def)
next
  case (Suc k)
  then show ?case using scan_inv_step by simp
qed

lemma scan_row_inv: "scan_inv cm inp cur n (scan_row cm n inp cur)"
  unfolding scan_row_def by (rule scan_inv_fold)

lemma unvisited_exists:
  assumes "distinct p" "set p \<subseteq> {0..<int n}" "length p < n"
  shows "\<exists>ix<n. int ix \<notin> set p"
proof (rule ccontr)
  assume "\<not> (\<exists>ix<n. int ix \<notin> set p)"
  then have "int ` {0..<n} \<subseteq> set p" by auto
  then have "card (int ` {0..<n}) \<le> card (set p)" by (intro card_mono) auto
  moreover have "card (int ` {0..<n}) = n" by (simp add: card_image)
  moreover have "card (set p) = length p" using assms by (simp add: distinct_card)
  ultimately show False using assms by simp
qed

lemma scan_row_finds:
  assumes sm: "small_costs cm n"
    and cur: "0 \<le> cur" "cur < int n"
    and ex: "\<exists>ix<n. \<not> inp ! ix"
  obtains cl cc where "scan_row cm n inp cur = (cl, cc)" "0 \<le> cl" "cl < int n" "\<not> inp ! nat cl"
    "\<forall>ix<n. \<not> inp ! ix \<longrightarrow>
       getCost cm cur cl < getCost cm cur (int ix)
       \<or> (getCost cm cur cl = getCost cm cur (int ix) \<and> cl \<le> int ix)"
proof -
  obtain cl cc where s: "scan_row cm n inp cur = (cl, cc)" by (cases "scan_row cm n inp cur")
  have inv: "scan_inv cm inp cur n (cl, cc)" using scan_row_inv [of cm inp cur n] s by simp
  from ex obtain ix where ix: "ix < n" "\<not> inp ! ix" by blast
  have "nat cur < n" using cur by simp
  then have "cm ! nat cur ! ix < INT_MAX" using sm ix by (simp add: small_costs_def)
  then have lt: "getCost cm cur (int ix) < INT_MAX" by (simp add: getCost_def)
  have "\<not> (cl = - 1 \<and> cc = INT_MAX \<and> (\<forall>ix<n. \<not> inp ! ix \<longrightarrow> INT_MAX \<le> getCost cm cur (int ix)))"
    using ix lt by force
  with inv have h: "0 \<le> cl \<and> cl < int n \<and> \<not> inp ! nat cl \<and> cc = getCost cm cur cl \<and> cc < INT_MAX \<and>
         (\<forall>ix<n. \<not> inp ! ix \<longrightarrow>
             cc < getCost cm cur (int ix) \<or> (cc = getCost cm cur (int ix) \<and> cl \<le> int ix))"
    unfolding scan_inv_def by blast
  show ?thesis
  proof (rule that [OF s])
    show "0 \<le> cl" "cl < int n" "\<not> inp ! nat cl" using h by simp_all
    show "\<forall>ix<n. \<not> inp ! ix \<longrightarrow>
       getCost cm cur cl < getCost cm cur (int ix)
       \<or> (getCost cm cur cl = getCost cm cur (int ix) \<and> cl \<le> int ix)"
      using h by auto
  qed
qed

section \<open>The tour builder keeps its invariant\<close>

lemma tour_inv_step:
  assumes inv: "tour_inv cm n start k st"
    and kn: "Suc k < n"
    and sm: "small_costs cm n"
  shows "\<exists>st'. calc_step cm n st = Inr st' \<and> tour_inv cm n start (Suc k) st'"
proof -
  define p where "p = path (self st)"
  have len: "length p = Suc k" and p0: "p ! 0 = start" and dist: "distinct p"
    and sub: "set p \<subseteq> {0..<int n}" and leni: "length (inpath st) = n"
    and inp: "\<forall>ix<n. inpath st ! ix \<longleftrightarrow> int ix \<in> set p"
    and cur: "curr_city st = last p"
    and cost: "pathcost (self st) = (\<Sum>j<k. getCost cm (p ! j) (p ! Suc j))"
    and greedy: "\<forall>j. 1 \<le> j \<and> j \<le> k \<longrightarrow>
             greedy_choice cm n (set (take j p)) (p ! (j - 1)) (p ! j)"
    using inv unfolding tour_inv_def p_def Let_def by blast+
  have pne: "p \<noteq> []" using len by auto
  then have "last p \<in> set p" by simp
  then have curr: "0 \<le> curr_city st" "curr_city st < int n" using sub cur by auto
  have "\<exists>ix<n. int ix \<notin> set p"
    using dist sub len kn by (intro unvisited_exists) auto
  then have ex: "\<exists>ix<n. \<not> inpath st ! ix" using inp by blast
  obtain cl cc where s: "scan_row cm n (inpath st) (curr_city st) = (cl, cc)"
    and cl0: "0 \<le> cl" and cln: "cl < int n" and clu: "\<not> inpath st ! nat cl"
    and clmin: "\<forall>ix<n. \<not> inpath st ! ix \<longrightarrow>
       getCost cm (curr_city st) cl < getCost cm (curr_city st) (int ix)
       \<or> (getCost cm (curr_city st) cl = getCost cm (curr_city st) (int ix) \<and> cl \<le> int ix)"
    using scan_row_finds [OF sm curr ex] by blast
  have natcl: "nat cl < n" using cl0 cln by simp
  have clp: "cl \<notin> set p" using inp natcl clu cl0 by auto
  define st' where "st' = \<lparr>inpath = (inpath st)[nat cl := True], curr_city = cl,
     self = \<lparr>path = p @ [cl], pathcost = pathcost (self st) + getCost cm (curr_city st) cl\<rparr>\<rparr>"
  have step: "calc_step cm n st = Inr st'"
    using s cl0 by (simp add: calc_step_def Let_def st'_def p_def)
  have lastp: "last p = p ! k" using len pne by (simp add: last_conv_nth)
  have g_new: "greedy_choice cm n (set p) (last p) cl"
    unfolding greedy_choice_def
  proof (intro conjI allI impI)
    fix j assume j: "0 \<le> j \<and> j < int n \<and> j \<notin> set p"
    then have jn: "nat j < n" and ji: "int (nat j) = j" by auto
    then have "\<not> inpath st ! nat j" using inp j by auto
    with clmin jn ji have m: "getCost cm (curr_city st) cl < getCost cm (curr_city st) j
       \<or> (getCost cm (curr_city st) cl = getCost cm (curr_city st) j \<and> cl \<le> j)"
      by metis
    then show "getCost cm (last p) cl \<le> getCost cm (last p) j" using cur by auto
    assume "getCost cm (last p) j = getCost cm (last p) cl"
    then show "cl \<le> j" using m cur by auto
  qed (use cl0 cln clp in auto)
  have g_all: "greedy_choice cm n (set (take j (p @ [cl]))) ((p @ [cl]) ! (j - 1)) ((p @ [cl]) ! j)"
    if j: "1 \<le> j \<and> j \<le> Suc k" for j
  proof (cases "j \<le> k")
    case True
    then have "take j (p @ [cl]) = take j p" "(p @ [cl]) ! (j - 1) = p ! (j - 1)"
      "(p @ [cl]) ! j = p ! j"
      using len j True by (auto simp: nth_append)
    then show ?thesis using greedy j True by simp
  next
    case False
    then have jk: "j = Suc k" using j by simp
    have "take j (p @ [cl]) = p" "(p @ [cl]) ! (j - 1) = last p" "(p @ [cl]) ! j = cl"
      using len jk lastp by (simp_all add: nth_append)
    then show ?thesis using g_new by simp
  qed
  have sum_eq: "(\<Sum>j<Suc k. getCost cm ((p @ [cl]) ! j) ((p @ [cl]) ! Suc j)) =
      (\<Sum>j<k. getCost cm (p ! j) (p ! Suc j)) + getCost cm (last p) cl"
  proof -
    have "(\<Sum>j<k. getCost cm ((p @ [cl]) ! j) ((p @ [cl]) ! Suc j)) =
          (\<Sum>j<k. getCost cm (p ! j) (p ! Suc j))"
      using len by (intro sum.cong) (auto simp: nth_append)
    moreover have "getCost cm ((p @ [cl]) ! k) ((p @ [cl]) ! Suc k) = getCost cm (last p) cl"
      using len lastp by (simp add: nth_append)
    ultimately show ?thesis by simp
  qed
  have inp': "\<forall>ix<n. (inpath st)[nat cl := True] ! ix \<longleftrightarrow> int ix \<in> set (p @ [cl])"
  proof (intro allI impI)
    fix ix assume ixn: "ix < n"
    show "(inpath st)[nat cl := True] ! ix \<longleftrightarrow> int ix \<in> set (p @ [cl])"
    proof (cases "ix = nat cl")
      case True
      then show ?thesis using leni natcl cl0 by simp
    next
      case False
      then have "int ix \<noteq> cl" using cl0 by auto
      then show ?thesis using False inp ixn by simp
    qed
  qed
  have "tour_inv cm n start (Suc k) st'"
    unfolding tour_inv_def Let_def st'_def
    using len p0 pne dist clp sub cl0 cln leni inp' cost cur sum_eq g_all
    by (simp add: nth_append)
  with step show ?thesis by blast
qed

lemma tour_inv_loop:
  assumes sm: "small_costs cm n"
  shows "tour_inv cm n start k st \<Longrightarrow> k + length is < n \<Longrightarrow>
    \<exists>st'. calc_loop cm n is st = Inr st' \<and> tour_inv cm n start (k + length is) st'"
proof (induction "is" arbitrary: k st)
  case Nil
  then show ?case by simp
next
  case (Cons i "is")
  from Cons.prems have "Suc k < n" by simp
  from tour_inv_step [OF Cons.prems(1) this sm]
  obtain st1 where s1: "calc_step cm n st = Inr st1" and i1: "tour_inv cm n start (Suc k) st1"
    by blast
  from Cons.prems have "Suc k + length is < n" by simp
  from Cons.IH [OF i1 this] obtain st' where
    "calc_loop cm n is st1 = Inr st'" "tour_inv cm n start (Suc k + length is) st'"
    by blast
  then show ?case using s1 by simp
qed

lemma tour_inv_init:
  assumes "0 \<le> start" "start < int n"
  shows "tour_inv cm n start 0
     \<lparr>inpath = (replicate n False)[nat start := True], curr_city = start,
      self = new_Path\<lparr>path := path new_Path @ [start]\<rparr>\<rparr>"
proof -
  have "(replicate n False)[nat start := True] ! ix \<longleftrightarrow> int ix = start" if "ix < n" for ix
    using that assms by (cases "ix = nat start") auto
  then show ?thesis
    using assms by (simp add: tour_inv_def new_Path_def)
qed

lemma calcPath_tour:
  assumes sm: "small_costs cm (length c)"
    and st: "0 \<le> start" "start < int (length c)"
  shows "\<exists>p. calcPath cm c start new_Path = Inr p \<and> is_tour cm (length c) start p"
proof -
  let ?n = "length c"
  let ?st0 = "\<lparr>inpath = (replicate ?n False)[nat start := True], curr_city = start,
      self = new_Path\<lparr>path := path new_Path @ [start]\<rparr>\<rparr>"
  have n1: "1 \<le> ?n" using st by simp
  have i0: "tour_inv cm ?n start 0 ?st0" using st by (rule tour_inv_init)
  have "0 + length [1..<?n] < ?n" using n1 by simp
  from tour_inv_loop [OF sm i0 this] obtain st' where
    l: "calc_loop cm ?n [1..<?n] ?st0 = Inr st'"
    and i: "tour_inv cm ?n start (?n - 1) st'" by auto
  define p where "p = path (self st')"
  have len: "length p = ?n" and p0: "p ! 0 = start" and dist: "distinct p"
    and sub: "set p \<subseteq> {0..<int ?n}"
    and cur: "curr_city st' = last p"
    and cost: "pathcost (self st') = (\<Sum>j<?n - 1. getCost cm (p ! j) (p ! Suc j))"
    and greedy: "\<forall>j. 1 \<le> j \<and> j \<le> ?n - 1 \<longrightarrow>
             greedy_choice cm ?n (set (take j p)) (p ! (j - 1)) (p ! j)"
    using i n1 unfolding tour_inv_def p_def Let_def by auto
  have greedy': "\<forall>j. 1 \<le> j \<and> j < ?n \<longrightarrow>
             greedy_choice cm ?n (set (take j p)) (p ! (j - 1)) (p ! j)"
    using greedy by auto
  have "card (set p) = ?n" using dist len by (simp add: distinct_card)
  moreover have "card {0..<int ?n} = ?n" by simp
  ultimately have seteq: "set p = {0..<int ?n}"
    using sub by (intro card_subset_eq) auto
  have "p \<noteq> []" using len n1 by auto
  then have lastp: "last p = p ! (?n - 1)" using len by (simp add: last_conv_nth)
  let ?res = "(self st')\<lparr>pathcost := pathcost (self st') + getCost cm (curr_city st') start\<rparr>"
  have r: "calcPath cm c start new_Path = Inr ?res"
    using st l by (simp add: calcPath_def Let_def)
  have "is_tour cm ?n start ?res"
    unfolding is_tour_def
    using len p0 dist seteq cost cur lastp greedy' by (simp add: p_def)
  with r show ?thesis by blast
qed

section \<open>The cost matrix\<close>

lemma dist2_sym: "dist2 cs i j = dist2 cs j i"
  by (simp add: dist2_def algebra_simps)

lemma dist2_nonneg: "0 \<le> dist2 cs i j"
  by (simp add: dist2_def)

lemma dist2_diag: "dist2 cs i i = 0"
  by (simp add: dist2_def)

lemma square_resize: "square n (resize n)"
  by (simp add: square_def resize_def)

lemma resize_nth: "i < n \<Longrightarrow> j < n \<Longrightarrow> resize n ! i ! j = 0"
  by (simp add: resize_def)

lemma square_setCost:
  assumes "square n m"
  shows "square n (setCost m r c v)"
proof -
  have "length (m[r := (m ! r)[c := v]] ! i) = n" if "i < n" for i
    using assms that by (cases "i = r") (simp_all add: square_def)
  then show ?thesis using assms by (simp add: square_def setCost_def)
qed

lemma setCost_nth:
  "square n m \<Longrightarrow> r < n \<Longrightarrow> c < n \<Longrightarrow> i < n \<Longrightarrow> j < n \<Longrightarrow>
   setCost m r c v ! i ! j = (if i = r \<and> j = c then v else m ! i ! j)"
  by (auto simp: square_def setCost_def nth_list_update)

lemma square_cost_cell: "square n m \<Longrightarrow> square n (cost_cell cs r c m)"
  by (simp add: cost_cell_def Let_def square_setCost)

lemma cost_cell_unfold:
  "cost_cell cs r c m =
     setCost (setCost m r c (round_sqrt (dist2 cs r c))) c r
       (setCost m r c (round_sqrt (dist2 cs r c)) ! r ! c)"
  by (simp add: cost_cell_def Let_def dist2_def)

lemma cost_cell_nth:
  assumes "square n m" "r < n" "c < n" "i < n" "j < n"
  shows "cost_cell cs r c m ! i ! j =
     (if (i = r \<and> j = c) \<or> (i = c \<and> j = r) then round_sqrt (dist2 cs r c) else m ! i ! j)"
proof -
  define v where "v = round_sqrt (dist2 cs r c)"
  define m1 where "m1 = setCost m r c v"
  have sq1: "square n m1" using assms(1) unfolding m1_def by (rule square_setCost)
  have a: "m1 ! r ! c = v" unfolding m1_def using assms by (simp add: setCost_nth)
  have e: "cost_cell cs r c m = setCost m1 c r (m1 ! r ! c)"
    unfolding m1_def v_def by (rule cost_cell_unfold)
  have "cost_cell cs r c m ! i ! j = (if i = c \<and> j = r then v else m1 ! i ! j)"
    unfolding e a using sq1 assms(3) assms(2) assms(4) assms(5) by (rule setCost_nth)
  also have "m1 ! i ! j = (if i = r \<and> j = c then v else m ! i ! j)"
    unfolding m1_def using assms by (rule setCost_nth)
  finally show ?thesis unfolding v_def by presburger
qed

lemma inner_loop:
  assumes sq: "square n m" and rn: "r < n"
  shows "r + d \<le> n \<Longrightarrow>
    square n (fold (cost_cell cs r) [r..<r + d] m) \<and>
    (\<forall>i<n. \<forall>j<n. fold (cost_cell cs r) [r..<r + d] m ! i ! j =
       (if (i = r \<and> r \<le> j \<and> j < r + d) \<or> (j = r \<and> r \<le> i \<and> i < r + d)
        then round_sqrt (dist2 cs i j) else m ! i ! j))"
proof (induction d)
  case 0
  then show ?case using sq by auto
next
  case (Suc d)
  let ?m = "fold (cost_cell cs r) [r..<r + d] m"
  from Suc have sqm: "square n ?m"
    and ent: "\<forall>i<n. \<forall>j<n. ?m ! i ! j =
       (if (i = r \<and> r \<le> j \<and> j < r + d) \<or> (j = r \<and> r \<le> i \<and> i < r + d)
        then round_sqrt (dist2 cs i j) else m ! i ! j)"
    by auto
  have c: "r + d < n" using Suc.prems by simp
  have f: "fold (cost_cell cs r) [r..<r + Suc d] m = cost_cell cs r (r + d) ?m"
    by simp
  have "fold (cost_cell cs r) [r..<r + Suc d] m ! i ! j =
       (if (i = r \<and> r \<le> j \<and> j < r + Suc d) \<or> (j = r \<and> r \<le> i \<and> i < r + Suc d)
        then round_sqrt (dist2 cs i j) else m ! i ! j)" if "i < n" "j < n" for i j
    unfolding f cost_cell_nth [OF sqm rn c that]
    using ent that dist2_sym [of cs "r + d" r] by auto
  then show ?case unfolding f using sqm by (simp add: square_cost_cell)
qed

lemma inner_loop_full:
  assumes sq: "square n m" and rn: "r < n"
  shows "square n (fold (cost_cell cs r) [r..<n] m) \<and>
    (\<forall>i<n. \<forall>j<n. fold (cost_cell cs r) [r..<n] m ! i ! j =
       (if (i = r \<and> r \<le> j) \<or> (j = r \<and> r \<le> i)
        then round_sqrt (dist2 cs i j) else m ! i ! j))"
proof -
  have "r + (n - r) \<le> n" using rn by simp
  from inner_loop [OF sq rn this, of cs] show ?thesis using rn by simp
qed

lemma outer_loop:
  "k \<le> n \<Longrightarrow>
    square n (fold (\<lambda>r. fold (cost_cell cs r) [r..<n]) [0..<k] (resize n)) \<and>
    (\<forall>i<n. \<forall>j<n. fold (\<lambda>r. fold (cost_cell cs r) [r..<n]) [0..<k] (resize n) ! i ! j =
       (if i < k \<or> j < k then round_sqrt (dist2 cs i j) else 0))"
proof (induction k)
  case 0
  then show ?case by (simp add: square_resize resize_nth)
next
  case (Suc k)
  let ?m = "fold (\<lambda>r. fold (cost_cell cs r) [r..<n]) [0..<k] (resize n)"
  from Suc have sqm: "square n ?m"
    and ent: "\<forall>i<n. \<forall>j<n. ?m ! i ! j =
       (if i < k \<or> j < k then round_sqrt (dist2 cs i j) else 0)"
    by auto
  have kn: "k < n" using Suc.prems by simp
  have f: "fold (\<lambda>r. fold (cost_cell cs r) [r..<n]) [0..<Suc k] (resize n) =
           fold (cost_cell cs k) [k..<n] ?m"
    by simp
  from inner_loop_full [OF sqm kn, of cs]
  have sq': "square n (fold (cost_cell cs k) [k..<n] ?m)"
    and ent': "\<forall>i<n. \<forall>j<n. fold (cost_cell cs k) [k..<n] ?m ! i ! j =
       (if (i = k \<and> k \<le> j) \<or> (j = k \<and> k \<le> i)
        then round_sqrt (dist2 cs i j) else ?m ! i ! j)"
    by auto
  show ?case unfolding f using sq' ent' ent by (auto simp: less_Suc_eq)
qed

lemma initCosts_square: "square (length cs) (initCosts cs)"
  using outer_loop [of "length cs" "length cs" cs] by (simp add: initCosts_def Let_def)

lemma initCosts_nth:
  "i < length cs \<Longrightarrow> j < length cs \<Longrightarrow> initCosts cs ! i ! j = round_sqrt (dist2 cs i j)"
  using outer_loop [of "length cs" "length cs" cs] by (simp add: initCosts_def Let_def)

subsection \<open>Rounding\<close>

lemma round_sqrt_eqI:
  assumes n: "0 \<le> n" and k: "0 \<le> k"
    and lo: "k = 0 \<or> (2 * k - 1) * (2 * k - 1) \<le> 4 * n"
    and hi: "4 * n < (2 * k + 1) * (2 * k + 1)"
  shows "round_sqrt n = k"
proof -
  have up: "sqrt (real_of_int n) < real_of_int k + 1 / 2"
  proof (rule real_less_lsqrt)
    show "0 \<le> real_of_int k + 1 / 2" using k by simp
    have "real_of_int (4 * n) < real_of_int ((2 * k + 1) * (2 * k + 1))"
      using hi by (simp only: of_int_less_iff)
    then show "real_of_int n < (real_of_int k + 1 / 2)\<^sup>2"
      by (simp add: power2_eq_square algebra_simps)
  qed
  have low: "real_of_int k - 1 / 2 \<le> sqrt (real_of_int n)"
  proof (cases "k = 0")
    case True
    have s0: "0 \<le> sqrt (real_of_int n)" using n by simp
    have "real_of_int k - 1 / 2 \<le> 0" using True by simp
    with s0 show ?thesis by linarith
  next
    case False
    then have "(2 * k - 1) * (2 * k - 1) \<le> 4 * n" using lo by simp
    then have "real_of_int ((2 * k - 1) * (2 * k - 1)) \<le> real_of_int (4 * n)"
      by (simp only: of_int_le_iff)
    then have "(real_of_int k - 1 / 2)\<^sup>2 \<le> real_of_int n"
      by (simp add: power2_eq_square algebra_simps)
    then show ?thesis by (rule real_le_rsqrt)
  qed
  show ?thesis
    unfolding round_sqrt_def
    by (rule floor_unique) (use up low in auto)
qed

lemma round_sqrt_0: "round_sqrt 0 = 0"
  by (rule round_sqrt_eqI) simp_all

lemma round_sqrt_9: "round_sqrt 9 = 3"
  by (rule round_sqrt_eqI) simp_all

lemma round_sqrt_16: "round_sqrt 16 = 4"
  by (rule round_sqrt_eqI) simp_all

lemma round_sqrt_25: "round_sqrt 25 = 5"
  by (rule round_sqrt_eqI) simp_all

lemma round_sqrt_nonneg: "0 \<le> n \<Longrightarrow> 0 \<le> round_sqrt n"
  by (simp add: round_sqrt_def)

lemma round_sqrt_nearest:
  "real_of_int (round_sqrt n) - 1 / 2 \<le> sqrt (real_of_int n) \<and>
   sqrt (real_of_int n) < real_of_int (round_sqrt n) + 1 / 2"
  unfolding round_sqrt_def by linarith

lemma round_sqrt_bound:
  assumes "n \<le> INT_MAX"
  shows "round_sqrt n \<le> 46341"
proof -
  have "real_of_int n \<le> 2147483647" using assms by (simp add: INT_MAX_def)
  then have "sqrt (real_of_int n) \<le> sqrt 2147483647" by simp
  also have "\<dots> < 46341" by (rule real_less_lsqrt) simp_all
  finally have "sqrt (real_of_int n) + 1 / 2 < 46342" by simp
  then have "\<lfloor>sqrt (real_of_int n) + 1 / 2\<rfloor> < 46342" by (simp add: floor_less_iff)
  then show ?thesis by (simp add: round_sqrt_def)
qed

lemma euclid_dist2: "euclid (cs ! i) (cs ! j) = sqrt (real_of_int (dist2 cs i j))"
  by (simp add: euclid_def dist2_def power2_eq_square)

subsection \<open>Rounding in double precision\<close>

lemma round_sqrt_range:
  assumes n0: "0 \<le> n"
  shows "0 \<le> round_sqrt n
       \<and> round_sqrt n * round_sqrt n - round_sqrt n < n + (if round_sqrt n = 0 then 1 else 0)
       \<and> n \<le> round_sqrt n * round_sqrt n + round_sqrt n"
proof -
  define k where "k = round_sqrt n"
  define x where "x = sqrt (real_of_int n)"
  have x0: "0 \<le> x" using n0 by (simp add: x_def)
  have xx: "x * x = real_of_int n" using n0 by (simp add: x_def)
  have lo: "real_of_int k - 1 / 2 \<le> x" and hi: "x < real_of_int k + 1 / 2"
    using round_sqrt_nearest [of n] by (simp_all add: k_def x_def)
  have k0: "0 \<le> k" using n0 by (simp add: k_def round_sqrt_nonneg)
  have "x * x < (real_of_int k + 1 / 2) * (real_of_int k + 1 / 2)"
    using x0 hi by (intro mult_strict_mono') auto
  then have "real_of_int (4 * n) < real_of_int (4 * (k * k + k) + 1)"
    using xx by (simp add: algebra_simps)
  then have "4 * n < 4 * (k * k + k) + 1" by (simp only: of_int_less_iff)
  then have up: "n \<le> k * k + k" by simp
  have low: "k * k - k < n" if "k \<noteq> 0"
  proof -
    have "1 \<le> k" using that k0 by simp
    then have "0 \<le> real_of_int k - 1 / 2" by simp
    then have "(real_of_int k - 1 / 2) * (real_of_int k - 1 / 2) \<le> x * x"
      using lo by (intro mult_mono) auto
    then have "real_of_int (4 * (k * k - k) + 1) \<le> real_of_int (4 * n)"
      using xx by (simp add: algebra_simps)
    then have "4 * (k * k - k) + 1 \<le> 4 * n" by (simp only: of_int_le_iff)
    then show ?thesis by simp
  qed
  have "k * k - k < n + (if k = 0 then 1 else 0)"
    using low n0 by (cases "k = 0") simp_all
  with k0 up show ?thesis unfolding k_def by blast
qed

lemma round_sqrt_fl_exact:
  assumes re: "rel_error fl (1 / 2 ^ 40)" and n0: "0 \<le> n" and nm: "n \<le> INT_MAX"
  shows "round_sqrt_fl fl n = round_sqrt n"
proof -
  define k where "k = round_sqrt n"
  define x where "x = sqrt (real_of_int n)"
  define a where "a = fl x"
  define b where "b = fl (a + 1 / 2)"
  define g :: real where "g = 1 / 1000000"
  have x0: "0 \<le> x" using n0 by (simp add: x_def)
  have xx: "x * x = real_of_int n" using n0 by (simp add: x_def)
  have k0: "0 \<le> k" and klow: "k * k - k < n + (if k = 0 then 1 else 0)"
    and kup: "n \<le> k * k + k"
    using round_sqrt_range [OF n0] by (simp_all add: k_def)
  have kb: "k \<le> 46341" using nm by (simp add: k_def round_sqrt_bound)
  have rk: "0 \<le> real_of_int k" "real_of_int k \<le> 46341" using k0 kb by simp_all
  have xhi: "x < real_of_int k + 1 / 2"
    using round_sqrt_nearest [of n] by (simp add: k_def x_def)
  then have xb: "x \<le> 46342" using rk by simp
  \<comment> \<open>the two roundings move the value by less than \<open>g\<close>\<close>
  have ea: "\<bar>a - x\<bar> \<le> (1 / 2 ^ 40) * \<bar>x\<bar>"
    using re by (simp add: rel_error_def a_def)
  have eb: "\<bar>b - (a + 1 / 2)\<bar> \<le> (1 / 2 ^ 40) * \<bar>a + 1 / 2\<bar>"
    using re by (simp add: rel_error_def b_def)
  have small: "(46342::real) / 2 ^ 40 < 1 / 4000000" "(46343::real) / 2 ^ 40 < 1 / 4000000"
    by simp_all
  have "(1 / 2 ^ 40) * \<bar>x\<bar> \<le> 46342 / 2 ^ 40" using x0 xb by simp
  with ea small have ea': "\<bar>a - x\<bar> < 1 / 4000000" by linarith
  then have ab: "\<bar>a + 1 / 2\<bar> \<le> 46343" using x0 xb by linarith
  then have "(1 / 2 ^ 40) * \<bar>a + 1 / 2\<bar> \<le> 46343 / 2 ^ 40" by simp
  with eb small have eb': "\<bar>b - (a + 1 / 2)\<bar> < 1 / 4000000" by linarith
  have close: "\<bar>b - (x + 1 / 2)\<bar> < g / 2" using ea' eb' unfolding g_def by linarith
  \<comment> \<open>\<open>x\<close> stays \<open>g\<close> away from the next half-integer\<close>
  have up: "x < real_of_int k + 1 / 2 - g"
  proof (rule power2_less_imp_less)
    show "0 \<le> real_of_int k + 1 / 2 - g" using rk by (simp add: g_def)
    have "real_of_int n \<le> real_of_int (k * k + k)" using kup by (simp only: of_int_le_iff)
    then have sq: "x\<^sup>2 \<le> real_of_int k * real_of_int k + real_of_int k"
      using xx by (simp add: power2_eq_square)
    have "2 * g * (real_of_int k + 1 / 2) \<le> 2 * g * 46342"
      using rk by (intro mult_left_mono) (simp_all add: g_def)
    then have h: "2 * g * (real_of_int k + 1 / 2) < 1 / 4" by (simp add: g_def)
    have e: "(real_of_int k + 1 / 2 - g)\<^sup>2 =
        real_of_int k * real_of_int k + real_of_int k + 1 / 4
        - 2 * g * (real_of_int k + 1 / 2) + g * g"
      by (simp add: power2_eq_square algebra_simps)
    have gg: "0 \<le> g * g" by simp
    show "x\<^sup>2 < (real_of_int k + 1 / 2 - g)\<^sup>2"
      using sq h e gg by linarith
  qed
  have low: "real_of_int k - 1 / 2 + g \<le> x" if "k \<noteq> 0"
  proof (rule power2_le_imp_le)
    show "0 \<le> x" by (rule x0)
    have "k * k - k + 1 \<le> n" using klow that by simp
    then have "real_of_int (k * k - k + 1) \<le> real_of_int n" by (simp only: of_int_le_iff)
    then have sq: "real_of_int k * real_of_int k - real_of_int k + 1 \<le> x\<^sup>2"
      using xx by (simp add: power2_eq_square)
    have "2 * g * real_of_int k \<le> 2 * g * 46341"
      using rk by (intro mult_left_mono) (simp_all add: g_def)
    then have h: "2 * g * real_of_int k + g * g < 3 / 4" by (simp add: g_def)
    have e: "(real_of_int k - 1 / 2 + g)\<^sup>2 =
        real_of_int k * real_of_int k - real_of_int k + 1 / 4
        + 2 * g * real_of_int k - g + g * g"
      by (simp add: power2_eq_square algebra_simps)
    have g0: "0 \<le> g" by (simp add: g_def)
    show "(real_of_int k - 1 / 2 + g)\<^sup>2 \<le> x\<^sup>2"
      using sq h e g0 by linarith
  qed
  have blo: "real_of_int k \<le> b"
  proof (cases "k = 0")
    case True
    have "0 \<le> b" using x0 close unfolding g_def by linarith
    then show ?thesis using True by simp
  next
    case False
    from low [OF False] close show ?thesis unfolding g_def by linarith
  qed
  have bhi: "b < real_of_int k + 1" using up close unfolding g_def by linarith
  have "\<lfloor>b\<rfloor> = k" using blo bhi by (intro floor_unique) simp_all
  then show ?thesis by (simp add: round_sqrt_fl_def k_def b_def a_def x_def)
qed

subsection \<open>Matrices the program builds\<close>

lemma initCosts_double:
  assumes "rel_error fl (1 / 2 ^ 40)" and "coords_fit cs" and "i < length cs" and "j < length cs"
  shows "initCosts cs ! i ! j = round_sqrt_fl fl (dist2 cs i j)"
proof -
  have "dist2 cs i j \<le> INT_MAX" using assms by (simp add: coords_fit_def)
  then have "round_sqrt_fl fl (dist2 cs i j) = round_sqrt (dist2 cs i j)"
    using assms(1) dist2_nonneg by (intro round_sqrt_fl_exact)
  then show ?thesis using assms by (simp add: initCosts_nth)
qed

lemma coords_fit_bounded:
  assumes "\<forall>c\<in>set cs. \<bar>xval c\<bar> \<le> 16000 \<and> \<bar>yval c\<bar> \<le> 16000"
  shows "coords_fit cs"
  unfolding coords_fit_def
proof (intro allI impI)
  fix i j assume ij: "i < length cs" "j < length cs"
  define dx where "dx = xval (cs ! i) - xval (cs ! j)"
  define dy where "dy = yval (cs ! i) - yval (cs ! j)"
  have "cs ! i \<in> set cs" "cs ! j \<in> set cs" using ij by simp_all
  then have "\<bar>xval (cs ! i)\<bar> \<le> 16000 \<and> \<bar>yval (cs ! i)\<bar> \<le> 16000"
    "\<bar>xval (cs ! j)\<bar> \<le> 16000 \<and> \<bar>yval (cs ! j)\<bar> \<le> 16000"
    using assms by blast+
  then have b: "\<bar>dx\<bar> \<le> 32000" "\<bar>dy\<bar> \<le> 32000"
    unfolding dx_def dy_def by linarith+
  have "dx * dx = \<bar>dx\<bar> * \<bar>dx\<bar>" "dy * dy = \<bar>dy\<bar> * \<bar>dy\<bar>" by simp_all
  moreover have "\<bar>dx\<bar> * \<bar>dx\<bar> \<le> 32000 * 32000" "\<bar>dy\<bar> * \<bar>dy\<bar> \<le> 32000 * 32000"
    using b by (intro mult_mono; simp)+
  ultimately have "dx * dx + dy * dy \<le> 2048000000" by linarith
  then show "dist2 cs i j \<le> INT_MAX"
    by (simp add: dist2_def dx_def dy_def INT_MAX_def)
qed

lemma small_costs_initCosts:
  assumes "coords_fit cs"
  shows "small_costs (initCosts cs) (length cs)"
  unfolding small_costs_def
proof (intro allI impI)
  fix r c assume rc: "r < length cs" "c < length cs"
  then have "dist2 cs r c \<le> INT_MAX" using assms by (simp add: coords_fit_def)
  then have "round_sqrt (dist2 cs r c) \<le> 46341" by (rule round_sqrt_bound)
  then show "initCosts cs ! r ! c < INT_MAX"
    using rc by (simp add: initCosts_nth INT_MAX_def)
qed

lemma calcPath_program:
  assumes "coords_fit cs" "0 \<le> start" "start < int (length cs)"
  shows "\<exists>p. calcPath (initCosts cs) cs start new_Path = Inr p
           \<and> is_tour (initCosts cs) (length cs) start p"
  using calcPath_tour [OF small_costs_initCosts [OF assms(1)] assms(2) assms(3)] .

lemma distinct_count_1: "distinct xs \<Longrightarrow> a \<in> set xs \<Longrightarrow> count_list xs a = 1"
  by (induction xs) auto

subsection \<open>Scenario A, evaluated\<close>

lemma upt4: "[0..<4] = [0, 1, 2, 3]" "[1..<4] = [1,2,3]" "[2..<4] = [2,3]" "[3..<4] = [3]"
  by (simp_all add: upt_rec)

lemma initCosts_scenario_A:
  "initCosts scenario_A = [[0, 3, 5, 4], [3, 0, 4, 5], [5, 4, 0, 3], [4, 5, 3, 0]]"
  by (simp add: initCosts_def scenario_A_def upt4 cost_cell_def setCost_def resize_def Let_def
      round_sqrt_0 round_sqrt_9 round_sqrt_16 round_sqrt_25 numeral_eq_Suc)

lemma calcPath_scenario_A:
  "calcPath [[0, 3, 5, 4], [3, 0, 4, 5], [5, 4, 0, 3], [4, 5, 3, 0]] scenario_A 0 new_Path
     = Inr \<lparr>path = [0, 1, 2, 3], pathcost = 14\<rparr>"
  by (simp add: calcPath_def scenario_A_def upt4 calc_step_def scan_row_def scan_step_def
      getCost_def INT_MAX_def new_Path_def Let_def)

lemma coords_fit_scenario_A: "coords_fit scenario_A"
  by (rule coords_fit_bounded) (simp add: scenario_A_def)

section \<open>Properties of the cost matrix and of the tours\<close>

text \<open>
  Claim C9. For cities whose coordinates do not overflow (\<open>coords_fit\<close>, outside
  of which the C expression \<open>delx*delx + dely*dely\<close> is undefined), the matrix built
  from \<open>N\<close> cities has \<open>N\<close> rows of \<open>N\<close> entries; for all \<open>i\<close>, \<open>j\<close> below \<open>N\<close>
  the entries at \<open>(i, j)\<close> and \<open>(j, i)\<close> are equal, the diagonal is 0, no entry is
  negative, and the entry is the Euclidean distance of the two cities rounded to
  the nearest integer, a tie going up: it is \<open>\<lfloor>d + 1/2\<rfloor>\<close>, which lies in
  \<open>(d - 1/2, d + 1/2]\<close>.
\<close>

theorem C9_matrix_symmetric_rounded:
  assumes cf: "coords_fit cs" and "i < length cs" and "j < length cs"
  shows "length (initCosts cs) = length cs
       \<and> length (initCosts cs ! i) = length cs
       \<and> initCosts cs ! i ! j = initCosts cs ! j ! i
       \<and> initCosts cs ! i ! i = 0
       \<and> 0 \<le> initCosts cs ! i ! j
       \<and> initCosts cs ! i ! j = \<lfloor>euclid (cs ! i) (cs ! j) + 1 / 2\<rfloor>
       \<and> real_of_int (initCosts cs ! i ! j) - 1 / 2 \<le> euclid (cs ! i) (cs ! j)
       \<and> euclid (cs ! i) (cs ! j) < real_of_int (initCosts cs ! i ! j) + 1 / 2"
proof -
  have sq: "length (initCosts cs) = length cs" "length (initCosts cs ! i) = length cs"
    using initCosts_square [of cs] assms by (simp_all add: square_def)
  have e: "initCosts cs ! i ! j = round_sqrt (dist2 cs i j)"
    using assms(2) assms(3) by (rule initCosts_nth)
  have "initCosts cs ! j ! i = round_sqrt (dist2 cs j i)"
    using assms by (simp add: initCosts_nth)
  then have sym: "initCosts cs ! i ! j = initCosts cs ! j ! i"
    using e by (simp add: dist2_sym)
  have diag: "initCosts cs ! i ! i = 0"
    using assms by (simp add: initCosts_nth dist2_diag round_sqrt_0)
  have nn: "0 \<le> initCosts cs ! i ! j"
    unfolding e by (rule round_sqrt_nonneg) (rule dist2_nonneg)
  have fl: "initCosts cs ! i ! j = \<lfloor>euclid (cs ! i) (cs ! j) + 1 / 2\<rfloor>"
    unfolding e euclid_dist2 by (simp add: round_sqrt_def)
  have near: "real_of_int (initCosts cs ! i ! j) - 1 / 2 \<le> euclid (cs ! i) (cs ! j)
       \<and> euclid (cs ! i) (cs ! j) < real_of_int (initCosts cs ! i ! j) + 1 / 2"
    unfolding e euclid_dist2 by (rule round_sqrt_nearest)
  from sq sym diag nn fl near show ?thesis by blast
qed

theorem C9_matrix_symmetric_rounded_witness:
  "coords_fit scenario_A \<and> (0::nat) < length scenario_A \<and> (2::nat) < length scenario_A
   \<and> initCosts scenario_A ! 0 ! 2 = 5
   \<and> initCosts scenario_A ! 2 ! 0 = 5
   \<and> initCosts scenario_A ! 0 ! 0 = 0
   \<and> real_of_int (initCosts scenario_A ! 0 ! 2) - 1 / 2 \<le> euclid (scenario_A ! 0) (scenario_A ! 2)
   \<and> euclid (scenario_A ! 0) (scenario_A ! 2) < real_of_int (initCosts scenario_A ! 0 ! 2) + 1 / 2"
proof -
  have h: "(0::nat) < length scenario_A" "(2::nat) < length scenario_A"
    by (simp_all add: scenario_A_def)
  have v: "initCosts scenario_A ! 0 ! 2 = 5" "initCosts scenario_A ! 2 ! 0 = 5"
    "initCosts scenario_A ! 0 ! 0 = 0"
    by (simp_all add: initCosts_scenario_A)
  from C9_matrix_symmetric_rounded [OF coords_fit_scenario_A h] v h coords_fit_scenario_A show ?thesis by blast
qed

text \<open>
  Claim C4. For \<open>N \<ge> 1\<close> cities (with coordinates that do not overflow) and a
  start city in \<open>[0, N)\<close>, \<open>calcPath\<close> returns, and the tour it builds has length
  \<open>N\<close>, begins with the start city and holds every city index of \<open>[0, N)\<close> exactly
  once.
\<close>

theorem C4_tour_is_permutation:
  assumes "coords_fit cs" and "0 \<le> start" and "start < int (length cs)"
  shows "\<exists>p. calcPath (initCosts cs) cs start new_Path = Inr p
           \<and> length (path p) = length cs
           \<and> path p ! 0 = start
           \<and> distinct (path p)
           \<and> set (path p) = {0..<int (length cs)}
           \<and> (\<forall>c. 0 \<le> c \<and> c < int (length cs) \<longrightarrow> count_list (path p) c = 1)"
proof -
  from calcPath_program [OF assms] obtain p where
    r: "calcPath (initCosts cs) cs start new_Path = Inr p"
    and t: "is_tour (initCosts cs) (length cs) start p" by blast
  have d: "distinct (path p)" and s: "set (path p) = {0..<int (length cs)}"
    using t by (simp_all add: is_tour_def)
  have "count_list (path p) c = 1" if "0 \<le> c \<and> c < int (length cs)" for c
    using d s that by (intro distinct_count_1) auto
  then show ?thesis using r t by (auto simp: is_tour_def)
qed

theorem C4_tour_is_permutation_witness:
  "coords_fit scenario_A \<and> (0::int) \<le> 0 \<and> (0::int) < int (length scenario_A)
   \<and> calcPath (initCosts scenario_A) scenario_A 0 new_Path
        = Inr \<lparr>path = [0, 1, 2, 3], pathcost = 14\<rparr>
   \<and> (\<exists>p. calcPath (initCosts scenario_A) scenario_A 0 new_Path = Inr p
         \<and> length (path p) = 4 \<and> distinct (path p) \<and> set (path p) = {0..<4})"
proof -
  have h: "(0::int) \<le> 0" "(0::int) < int (length scenario_A)" by (simp_all add: scenario_A_def)
  have l: "int (length scenario_A) = 4" "length scenario_A = 4" by (simp_all add: scenario_A_def)
  from C4_tour_is_permutation [OF coords_fit_scenario_A h] show ?thesis
    using coords_fit_scenario_A h
    by (simp add: l initCosts_scenario_A calcPath_scenario_A)
qed

text \<open>
  Claim C5. Under the same conditions the cost \<open>calcPath\<close> returns is the sum of the
  matrix entries over consecutive cities of the tour plus the entry from the last
  city back to the first; for a single city the tour is \<open>[0]\<close> and the cost is 0.
\<close>

theorem C5_cost_is_edge_sum:
  assumes "coords_fit cs" and "0 \<le> start" and "start < int (length cs)"
  shows "\<exists>p. calcPath (initCosts cs) cs start new_Path = Inr p
           \<and> pathcost p =
               (\<Sum>k<length cs - 1. getCost (initCosts cs) (path p ! k) (path p ! Suc k))
               + getCost (initCosts cs) (path p ! (length cs - 1)) (path p ! 0)
           \<and> (length cs = 1 \<longrightarrow> path p = [0] \<and> pathcost p = 0)"
proof -
  from calcPath_program [OF assms] obtain p where
    r: "calcPath (initCosts cs) cs start new_Path = Inr p"
    and t: "is_tour (initCosts cs) (length cs) start p" by blast
  have c: "pathcost p =
               (\<Sum>k<length cs - 1. getCost (initCosts cs) (path p ! k) (path p ! Suc k))
               + getCost (initCosts cs) (path p ! (length cs - 1)) (path p ! 0)"
    using t by (simp add: is_tour_def)
  have "path p = [0] \<and> pathcost p = 0" if one: "length cs = 1"
  proof -
    have s0: "start = 0" using assms one by simp
    have "length (path p) = 1" "path p ! 0 = 0" using t one s0 by (simp_all add: is_tour_def)
    then have p: "path p = [0]" by (cases "path p") auto
    have "initCosts cs ! 0 ! 0 = 0"
      using one by (simp add: initCosts_nth dist2_diag round_sqrt_0)
    then show ?thesis using c p one by (simp add: getCost_def)
  qed
  with r c show ?thesis by blast
qed

theorem C5_cost_is_edge_sum_witness:
  "coords_fit scenario_A \<and> (0::int) \<le> 0 \<and> (0::int) < int (length scenario_A)
   \<and> calcPath (initCosts scenario_A) scenario_A 0 new_Path
        = Inr \<lparr>path = [0, 1, 2, 3], pathcost = 14\<rparr>
   \<and> (14::int) = (\<Sum>k<length scenario_A - 1.
          getCost (initCosts scenario_A) ([0, 1, 2, 3] ! k) ([0, 1, 2, 3] ! Suc k))
        + getCost (initCosts scenario_A) ([0, 1, 2, 3] ! (length scenario_A - 1)) ([0, 1, 2, 3] ! 0)"
proof -
  have h: "(0::int) \<le> 0" "(0::int) < int (length scenario_A)" by (simp_all add: scenario_A_def)
  have l: "length scenario_A = 4" by (simp add: scenario_A_def)
  from C5_cost_is_edge_sum [OF coords_fit_scenario_A h] show ?thesis
    using coords_fit_scenario_A h
    by (simp add: calcPath_scenario_A initCosts_scenario_A l)
qed

text \<open>
  Claim C6. At each of the \<open>N - 1\<close> selection steps \<open>k = 1, ..., N - 1\<close> the city
  appended is unvisited (not among the first \<open>k\<close> cities of the tour), its distance
  from the current city (the one at position \<open>k - 1\<close>) is minimal among the
  unvisited cities, and it has the lowest index among the unvisited cities at that
  distance. For the cities (0,0), (0,3), (4,3), (4,0) and start city 0 the tour is
  \<open>[0, 1, 2, 3]\<close> with cost 14.
\<close>

theorem C6_greedy_lowest_index:
  assumes "coords_fit cs" and "0 \<le> start" and "start < int (length cs)"
  shows "(\<exists>p. calcPath (initCosts cs) cs start new_Path = Inr p
           \<and> length (path p) = length cs
           \<and> (\<forall>k. 1 \<le> k \<and> k < length cs \<longrightarrow>
                 greedy_choice (initCosts cs) (length cs)
                   (set (take k (path p))) (path p ! (k - 1)) (path p ! k)))
       \<and> calcPath (initCosts scenario_A) scenario_A 0 new_Path
            = Inr \<lparr>path = [0, 1, 2, 3], pathcost = 14\<rparr>"
proof -
  from calcPath_program [OF assms] obtain p where
    r: "calcPath (initCosts cs) cs start new_Path = Inr p"
    and t: "is_tour (initCosts cs) (length cs) start p" by blast
  then show ?thesis
    by (auto simp: is_tour_def initCosts_scenario_A calcPath_scenario_A)
qed

theorem C6_greedy_lowest_index_witness:
  "coords_fit scenario_A \<and> (0::int) \<le> 0 \<and> (0::int) < int (length scenario_A)
   \<and> calcPath (initCosts scenario_A) scenario_A 0 new_Path
        = Inr \<lparr>path = [0, 1, 2, 3], pathcost = 14\<rparr>
   \<and> greedy_choice (initCosts scenario_A) (length scenario_A) (set (take 2 [0, 1, 2, 3])) 1 2"
proof -
  have h: "(0::int) \<le> 0" "(0::int) < int (length scenario_A)" by (simp_all add: scenario_A_def)
  have l: "length scenario_A = 4" by (simp add: scenario_A_def)
  from C6_greedy_lowest_index [OF coords_fit_scenario_A h] obtain p where
    r: "calcPath (initCosts scenario_A) scenario_A 0 new_Path = Inr p"
    and g: "\<forall>k. 1 \<le> k \<and> k < length scenario_A \<longrightarrow>
                 greedy_choice (initCosts scenario_A) (length scenario_A)
                   (set (take k (path p))) (path p ! (k - 1)) (path p ! k)"
    and c: "calcPath (initCosts scenario_A) scenario_A 0 new_Path
        = Inr \<lparr>path = [0, 1, 2, 3], pathcost = 14\<rparr>"
    by blast
  have "p = \<lparr>path = [0, 1, 2, 3], pathcost = 14\<rparr>" using r c by simp
  then have p: "path p = [0, 1, 2, 3]" by simp
  have "(1::nat) \<le> 2 \<and> 2 < length scenario_A" by (simp add: l)
  with g have "greedy_choice (initCosts scenario_A) (length scenario_A)
                   (set (take 2 (path p))) (path p ! (2 - 1)) (path p ! 2)"
    by blast
  then have "greedy_choice (initCosts scenario_A) (length scenario_A)
      (set (take 2 [0, 1, 2, 3])) 1 2"
    by (simp add: p)
  with coords_fit_scenario_A h c show ?thesis by blast
qed

section \<open>The loop of a thread in closed form\<close>

lemma run_loop_closed:
  "(\<And>c. a \<le> c \<Longrightarrow> c < e \<Longrightarrow> \<exists>p. calcPath (cost_matrix E) (cities E) c new_Path = Inr p) \<Longrightarrow>
   run_loop E a e loc =
     Inr (fold (adopt E) (takeWhile (\<lambda>c. \<not> deadline_passed E c) [a..e - 1]) loc)"
proof (induction E a e loc rule: run_loop.induct)
  case (1 E a e loc)
  show ?case
  proof (cases "a < e")
    case False
    then show ?thesis by (simp add: run_loop.simps [of E a e loc])
  next
    case True
    then have u: "[a..e - 1] = a # [a + 1..e - 1]" by (simp add: upto_rec1)
    show ?thesis
    proof (cases "deadline_passed E a")
      case True
      then show ?thesis
        using \<open>a < e\<close> by (simp add: run_loop.simps [of E a e loc] u deadline_passed_def)
    next
      case False
      from "1.prems" [of a] \<open>a < e\<close> obtain p where
        p: "calcPath (cost_matrix E) (cities E) a new_Path = Inr p" by auto
      then have tf: "tour_from E a = p" "tour_cost E a = pathcost p"
        by (simp_all add: tour_from_def tour_cost_def)
      have nd: "\<not> (0 < global_stop_time E \<and> global_stop_time E < clock E a)"
        using False by (simp add: deadline_passed_def)
      let ?loc' = "if pathcost p < local_best_length loc
                   then \<lparr>local_best_length = pathcost p, local_best_path = Some p,
                         evaluated = evaluated loc @ [a]\<rparr>
                   else loc\<lparr>evaluated := evaluated loc @ [a]\<rparr>"
      have ih: "run_loop E (a + 1) e ?loc' =
          Inr (fold (adopt E) (takeWhile (\<lambda>c. \<not> deadline_passed E c) [a + 1..e - 1]) ?loc')"
        using "1.IH" [OF \<open>a < e\<close> nd p] "1.prems" by simp
      have "run_loop E a e loc = run_loop E (a + 1) e ?loc'"
        using \<open>a < e\<close> nd p by (auto simp add: run_loop.simps [of E a e loc])
      also note ih
      also have "?loc' = adopt E a loc" by (simp add: adopt_def tf)
      finally show ?thesis using False by (simp add: u)
    qed
  qed
qed

lemma evaluated_fold_adopt: "evaluated (fold (adopt E) xs loc) = evaluated loc @ xs"
  by (induction xs arbitrary: loc) (simp_all add: adopt_def)

lemma length_adopt: "local_best_length (adopt E c loc) = min (local_best_length loc) (tour_cost E c)"
  by (simp add: adopt_def)

lemma length_fold_adopt:
  "local_best_length (fold (adopt E) xs loc) =
     Min (insert (local_best_length loc) (tour_cost E ` set xs))"
proof (induction xs arbitrary: loc)
  case Nil
  then show ?case by simp
next
  case (Cons c xs)
  have "Min (insert (min (local_best_length loc) (tour_cost E c)) (tour_cost E ` set xs)) =
        Min (insert (local_best_length loc) (insert (tour_cost E c) (tour_cost E ` set xs)))"
    by (cases "set xs = {}") (simp_all add: min.assoc)
  then show ?case using Cons by (simp add: length_adopt)
qed

lemma adopt_best:
  assumes "(local_best_path w = None \<and> local_best_length w = INT_MAX)
     \<or> (\<exists>c \<in> set (evaluated w). local_best_path w = Some (tour_from E c)
            \<and> local_best_length w = tour_cost E c)"
  shows "(local_best_path (adopt E d w) = None \<and> local_best_length (adopt E d w) = INT_MAX)
     \<or> (\<exists>c \<in> set (evaluated (adopt E d w)). local_best_path (adopt E d w) = Some (tour_from E c)
            \<and> local_best_length (adopt E d w) = tour_cost E c)"
  using assms by (auto simp: adopt_def)

lemma fold_adopt_best:
  "(local_best_path w = None \<and> local_best_length w = INT_MAX)
     \<or> (\<exists>c \<in> set (evaluated w). local_best_path w = Some (tour_from E c)
            \<and> local_best_length w = tour_cost E c) \<Longrightarrow>
   (local_best_path (fold (adopt E) xs w) = None \<and> local_best_length (fold (adopt E) xs w) = INT_MAX)
     \<or> (\<exists>c \<in> set (evaluated (fold (adopt E) xs w)).
            local_best_path (fold (adopt E) xs w) = Some (tour_from E c)
            \<and> local_best_length (fold (adopt E) xs w) = tour_cost E c)"
proof (induction xs arbitrary: w)
  case Nil
  then show ?case by simp
next
  case (Cons d xs)
  from adopt_best [OF Cons.prems, of d] Cons.IH [of "adopt E d w"] show ?case by simp
qed

lemma fold_adopt_init_best:
  "(local_best_path (fold (adopt E) xs init_worker) = None
      \<and> local_best_length (fold (adopt E) xs init_worker) = INT_MAX)
   \<or> (\<exists>c \<in> set xs. local_best_path (fold (adopt E) xs init_worker) = Some (tour_from E c)
          \<and> local_best_length (fold (adopt E) xs init_worker) = tour_cost E c)"
proof -
  have "(local_best_path init_worker = None \<and> local_best_length init_worker = INT_MAX)
     \<or> (\<exists>c \<in> set (evaluated init_worker). local_best_path init_worker = Some (tour_from E c)
            \<and> local_best_length init_worker = tour_cost E c)"
    by (simp add: init_worker_def)
  from fold_adopt_best [OF this, of xs] show ?thesis
    by (simp add: evaluated_fold_adopt init_worker_def)
qed

section \<open>A thread on the program's matrix\<close>

lemma program_env_simps:
  "cities (program_env cs stop clk) = cs"
  "cost_matrix (program_env cs stop clk) = initCosts cs"
  "global_stop_time (program_env cs stop clk) = stop"
  "clock (program_env cs stop clk) = clk"
  by (simp_all add: program_env_def)

lemma tour_from_program:
  assumes "coords_fit cs" "0 \<le> c" "c < int (length cs)"
  shows "calcPath (initCosts cs) cs c new_Path = Inr (tour_from (program_env cs stop clk) c)
       \<and> is_tour (initCosts cs) (length cs) c (tour_from (program_env cs stop clk) c)"
proof -
  from calcPath_program [OF assms] obtain p where
    "calcPath (initCosts cs) cs c new_Path = Inr p" "is_tour (initCosts cs) (length cs) c p"
    by blast
  then show ?thesis by (simp add: tour_from_def program_env_simps)
qed

lemma clamped_end_le: "b_end (clamp_end sz b) \<le> sz"
  by (simp add: clamp_end_def)

lemma runthread_local_closed:
  assumes cf: "coords_fit cs"
    and b0: "0 \<le> b_start b" and bn: "b_start b \<le> int (length cs)"
  shows "runthread_local (program_env cs stop clk) b =
     Inr (fold (adopt (program_env cs stop clk))
            (takeWhile (\<lambda>c. \<not> deadline_passed (program_env cs stop clk) c)
               (loop_range (int (length cs)) b))
            init_worker)"
proof -
  let ?E = "program_env cs stop clk"
  let ?b = "clamp_end (int (length cs)) b"
  have ok: "\<exists>p. calcPath (cost_matrix ?E) (cities ?E) c new_Path = Inr p"
    if "b_start ?b \<le> c" "c < b_end ?b" for c
  proof -
    have "0 \<le> c" using that b0 by (simp add: clamped_start)
    moreover have "c < int (length cs)"
      using that clamped_end_le [of "int (length cs)" b] by simp
    ultimately show ?thesis
      using tour_from_program [OF cf, of c stop clk] by (auto simp: program_env_simps)
  qed
  have "run_loop ?E (b_start ?b) (b_end ?b) init_worker =
     Inr (fold (adopt ?E) (takeWhile (\<lambda>c. \<not> deadline_passed ?E c) [b_start ?b..b_end ?b - 1])
            init_worker)"
    using ok by (rule run_loop_closed)
  then show ?thesis
    using bn by (simp add: runthread_local_def Let_def loop_range_def program_env_simps init_worker_def)
qed

lemma runthread_local_deadline:
  assumes bn: "b_start b \<le> int (length (cities E))"
    and dp: "deadline_passed E (b_start b)"
  shows "runthread_local E b = Inr init_worker"
proof -
  let ?b = "clamp_end (int (length (cities E))) b"
  have "run_loop E (b_start b) (b_end ?b) init_worker = Inr init_worker"
    using dp by (simp add: run_loop.simps [of E "b_start b" "b_end ?b"] deadline_passed_def)
  then have "run_loop E (b_start ?b) (b_end ?b) init_worker = Inr init_worker"
    by (simp only: clamped_start)
  then show ?thesis using bn by (simp add: runthread_local_def Let_def init_worker_def)
qed

lemma offer_init_worker: "global_best_length g \<le> INT_MAX \<Longrightarrow> offer init_worker g = g"
  by (simp add: offer_def init_worker_def)

lemma length_fold_adopt_le:
  "c \<in> set xs \<Longrightarrow> local_best_length (fold (adopt E) xs loc) \<le> tour_cost E c"
  unfolding length_fold_adopt by (rule Min_le) auto

lemma loop_range_bounds:
  "c \<in> set (loop_range sz b) \<Longrightarrow> b_start b \<le> c \<and> c < sz"
  using clamped_end_le [of sz b] by (auto simp: loop_range_def Let_def clamped_start)

lemma thread_start_in_range:
  assumes "s \<le> sz" "1 \<le> w" "i < nat w"
  shows "s \<le> b_start (thread_bounds sz s w i) \<and> b_start (thread_bounds sz s w i) \<le> sz"
proof -
  let ?r = "(sz - s) div w"
  have r0: "0 \<le> ?r" using assms by (simp add: pos_imp_zdiv_nonneg_iff)
  have "int i * ?r \<le> sz - s" using assms by (intro range_times_le) auto
  moreover have "0 \<le> int i * ?r" using r0 by simp
  ultimately show ?thesis using assms by (simp add: thread_bounds_start)
qed

lemma last_bound_past:
  assumes "s \<le> sz" "1 \<le> w"
  shows "b_end (thread_bounds sz s w (nat w - 1)) = sz + 1"
proof -
  have "int (nat w - 1) = w - 1" using assms by simp
  then show ?thesis using assms by (simp add: thread_bounds_end)
qed

subsection \<open>Scenario A from every start city\<close>

lemma schedule_examples: "schedule 1 [0]" "schedule 2 [1, 0]"
  by (auto simp: schedule_def)

lemma calcPath_scenario_A_all:
  "calcPath (initCosts scenario_A) scenario_A 0 new_Path = Inr \<lparr>path = [0, 1, 2, 3], pathcost = 14\<rparr>"
  "calcPath (initCosts scenario_A) scenario_A 1 new_Path = Inr \<lparr>path = [1, 0, 3, 2], pathcost = 14\<rparr>"
  "calcPath (initCosts scenario_A) scenario_A 2 new_Path = Inr \<lparr>path = [2, 3, 0, 1], pathcost = 14\<rparr>"
  "calcPath (initCosts scenario_A) scenario_A 3 new_Path = Inr \<lparr>path = [3, 2, 1, 0], pathcost = 14\<rparr>"
  unfolding initCosts_scenario_A
  by (simp_all add: calcPath_def scenario_A_def upt4 calc_step_def scan_row_def scan_step_def
      getCost_def INT_MAX_def new_Path_def Let_def)

lemma tour_cost_scenario_A:
  "tour_cost (program_env scenario_A stop clk) 0 = 14"
  "tour_cost (program_env scenario_A stop clk) 1 = 14"
  "tour_cost (program_env scenario_A stop clk) 2 = 14"
  "tour_cost (program_env scenario_A stop clk) 3 = 14"
  by (simp_all add: tour_cost_def tour_from_def program_env_simps calcPath_scenario_A_all)

lemma tour_from_scenario_A:
  "tour_from (program_env scenario_A stop clk) 0 = \<lparr>path = [0, 1, 2, 3], pathcost = 14\<rparr>"
  by (simp add: tour_from_def program_env_simps calcPath_scenario_A_all)

lemma tour_from_scenario_A_2:
  "tour_from (program_env scenario_A stop clk) 2 = \<lparr>path = [2, 3, 0, 1], pathcost = 14\<rparr>"
  by (simp add: tour_from_def program_env_simps calcPath_scenario_A_all)

lemma fold_adopt_scenario_A:
  "fold (adopt (program_env scenario_A stop clk)) [0, 1, 2, 3] init_worker =
     \<lparr>local_best_length = 14, local_best_path = Some \<lparr>path = [0, 1, 2, 3], pathcost = 14\<rparr>,
      evaluated = [0, 1, 2, 3]\<rparr>"
  by (simp add: adopt_def tour_cost_scenario_A tour_from_scenario_A init_worker_def INT_MAX_def)

lemma range4: "{0..<4::int} = {0, 1, 2, 3}"
  by auto

text \<open>
  Claim C8. A thread whose start is a city index or the city count returns, and
  what it returns is the loop of \<open>runthread\<close> run over the cities of its clamped
  range up to, and without, the first one whose check finds the stop time passed:
  on each of them, in order, \<open>calcPath\<close> is called and its tour adopted when
  strictly shorter. With no stop time (\<open>global_stop_time\<close> is 0) that is the whole
  range. With a stop time that the first check already finds passed the thread
  returns its initial locals: no city evaluated, no path, and its offer leaves the
  global best as it is. In every case the thread's best length is the least tour
  cost of the cities it evaluated (or \<open>INT_MAX\<close>), its best path is the tour of
  one of them with that cost (or null), and every city it evaluated got a complete
  tour: the clock is read between two calls of \<open>calcPath\<close> and never inside one.
\<close>

theorem C8_deadline_between_iterations:
  assumes cf: "coords_fit cs"
    and b0: "0 \<le> b_start b" and bn: "b_start b \<le> int (length cs)"
  shows "runthread_local (program_env cs stop clk) b =
       Inr (fold (adopt (program_env cs stop clk))
              (takeWhile (\<lambda>c. \<not> deadline_passed (program_env cs stop clk) c)
                 (loop_range (int (length cs)) b))
              init_worker)
     \<and> (stop \<le> 0 \<longrightarrow>
           runthread_local (program_env cs stop clk) b =
             Inr (fold (adopt (program_env cs stop clk)) (loop_range (int (length cs)) b)
                    init_worker))
     \<and> (0 < stop \<and> stop < clk (b_start b) \<longrightarrow>
           runthread_local (program_env cs stop clk) b = Inr init_worker
           \<and> (\<forall>g. global_best_length g \<le> INT_MAX \<longrightarrow> offer init_worker g = g))
     \<and> (\<exists>w. runthread_local (program_env cs stop clk) b = Inr w
           \<and> evaluated w =
               takeWhile (\<lambda>c. \<not> deadline_passed (program_env cs stop clk) c)
                 (loop_range (int (length cs)) b)
           \<and> (stop \<le> 0 \<longrightarrow> evaluated w = loop_range (int (length cs)) b)
           \<and> (0 < stop \<and> stop < clk (b_start b) \<longrightarrow>
                 evaluated w = [] \<and> local_best_path w = None
                 \<and> (\<forall>g. global_best_length g \<le> INT_MAX \<longrightarrow> offer w g = g))
           \<and> local_best_length w =
               Min (insert INT_MAX (tour_cost (program_env cs stop clk) ` set (evaluated w)))
           \<and> ((local_best_path w = None \<and> local_best_length w = INT_MAX)
              \<or> (\<exists>c \<in> set (evaluated w).
                    local_best_path w = Some (tour_from (program_env cs stop clk) c)
                    \<and> local_best_length w = tour_cost (program_env cs stop clk) c))
           \<and> (\<forall>c \<in> set (evaluated w).
                 calcPath (initCosts cs) cs c new_Path
                   = Inr (tour_from (program_env cs stop clk) c)
                 \<and> is_tour (initCosts cs) (length cs) c (tour_from (program_env cs stop clk) c)
                 \<and> local_best_length w \<le> tour_cost (program_env cs stop clk) c))"
proof -
  let ?E = "program_env cs stop clk"
  let ?xs = "takeWhile (\<lambda>c. \<not> deadline_passed ?E c) (loop_range (int (length cs)) b)"
  let ?w = "fold (adopt ?E) ?xs init_worker"
  have r: "runthread_local ?E b = Inr ?w"
    using assms by (rule runthread_local_closed)
  have ev: "evaluated ?w = ?xs"
    by (simp add: evaluated_fold_adopt init_worker_def)
  have xs_nd: "?xs = loop_range (int (length cs)) b" if "stop \<le> 0"
    using that by (simp add: deadline_passed_def program_env_simps)
  have r_nd: "runthread_local ?E b =
      Inr (fold (adopt ?E) (loop_range (int (length cs)) b) init_worker)" if "stop \<le> 0"
    using r by (simp only: xs_nd [OF that])
  have nodl: "evaluated ?w = loop_range (int (length cs)) b" if "stop \<le> 0"
    using xs_nd [OF that] ev by simp
  have r_dl: "runthread_local ?E b = Inr init_worker" if "0 < stop \<and> stop < clk (b_start b)"
  proof -
    have "deadline_passed ?E (b_start b)"
      using that by (simp add: deadline_passed_def program_env_simps)
    then show ?thesis
      using bn by (intro runthread_local_deadline) (simp add: program_env_simps)
  qed
  have off: "\<forall>g. global_best_length g \<le> INT_MAX \<longrightarrow> offer init_worker g = g"
    by (simp add: offer_init_worker)
  have dl: "evaluated ?w = [] \<and> local_best_path ?w = None
           \<and> (\<forall>g. global_best_length g \<le> INT_MAX \<longrightarrow> offer ?w g = g)"
    if d: "0 < stop \<and> stop < clk (b_start b)"
  proof -
    from r r_dl [OF d] have "?w = init_worker" by simp
    then show ?thesis by (simp add: offer_init_worker) (simp add: init_worker_def)
  qed
  have len: "local_best_length ?w = Min (insert INT_MAX (tour_cost ?E ` set (evaluated ?w)))"
    unfolding ev by (simp add: length_fold_adopt init_worker_def)
  have best: "(local_best_path ?w = None \<and> local_best_length ?w = INT_MAX)
              \<or> (\<exists>c \<in> set (evaluated ?w).
                    local_best_path ?w = Some (tour_from ?E c)
                    \<and> local_best_length ?w = tour_cost ?E c)"
    unfolding ev by (rule fold_adopt_init_best)
  have full: "calcPath (initCosts cs) cs c new_Path = Inr (tour_from ?E c)
           \<and> is_tour (initCosts cs) (length cs) c (tour_from ?E c)
           \<and> local_best_length ?w \<le> tour_cost ?E c" if "c \<in> set (evaluated ?w)" for c
  proof -
    have c: "c \<in> set ?xs" using that by (simp only: ev)
    then have "c \<in> set (loop_range (int (length cs)) b)" by (rule set_takeWhileD [THEN conjunct1])
    then have "0 \<le> c" "c < int (length cs)" using loop_range_bounds b0 by fastforce+
    then have "calcPath (initCosts cs) cs c new_Path = Inr (tour_from ?E c)
           \<and> is_tour (initCosts cs) (length cs) c (tour_from ?E c)"
      by (rule tour_from_program [OF cf])
    moreover have "local_best_length ?w \<le> tour_cost ?E c"
      using c by (rule length_fold_adopt_le)
    ultimately show ?thesis by blast
  qed
  have ex: "\<exists>w. runthread_local ?E b = Inr w
           \<and> evaluated w = ?xs
           \<and> (stop \<le> 0 \<longrightarrow> evaluated w = loop_range (int (length cs)) b)
           \<and> (0 < stop \<and> stop < clk (b_start b) \<longrightarrow>
                 evaluated w = [] \<and> local_best_path w = None
                 \<and> (\<forall>g. global_best_length g \<le> INT_MAX \<longrightarrow> offer w g = g))
           \<and> local_best_length w = Min (insert INT_MAX (tour_cost ?E ` set (evaluated w)))
           \<and> ((local_best_path w = None \<and> local_best_length w = INT_MAX)
              \<or> (\<exists>c \<in> set (evaluated w).
                    local_best_path w = Some (tour_from ?E c)
                    \<and> local_best_length w = tour_cost ?E c))
           \<and> (\<forall>c \<in> set (evaluated w).
                 calcPath (initCosts cs) cs c new_Path = Inr (tour_from ?E c)
                 \<and> is_tour (initCosts cs) (length cs) c (tour_from ?E c)
                 \<and> local_best_length w \<le> tour_cost ?E c)"
    using r ev nodl dl len best full by (intro exI [of _ ?w]) blast
  from r r_nd r_dl off ex show ?thesis by blast
qed

theorem C8_deadline_between_iterations_witness:
  "coords_fit scenario_A
   \<and> 0 \<le> b_start \<lparr>b_start = 0, b_end = 5\<rparr>
   \<and> b_start \<lparr>b_start = 0, b_end = 5\<rparr> \<le> int (length scenario_A)
   \<and> runthread_local (program_env scenario_A 0 (\<lambda>c. 0)) \<lparr>b_start = 0, b_end = 5\<rparr>
       = Inr \<lparr>local_best_length = 14,
              local_best_path = Some \<lparr>path = [0, 1, 2, 3], pathcost = 14\<rparr>,
              evaluated = [0, 1, 2, 3]\<rparr>
   \<and> runthread_local (program_env scenario_A 5 (\<lambda>c. 10)) \<lparr>b_start = 0, b_end = 5\<rparr>
       = Inr \<lparr>local_best_length = INT_MAX, local_best_path = None, evaluated = []\<rparr>
   \<and> runthread_local (program_env scenario_A 5 (\<lambda>c. if c < 2 then 1 else 10))
         \<lparr>b_start = 0, b_end = 5\<rparr>
       = Inr \<lparr>local_best_length = 14,
              local_best_path = Some \<lparr>path = [0, 1, 2, 3], pathcost = 14\<rparr>,
              evaluated = [0, 1]\<rparr>"
proof -
  let ?b = "\<lparr>b_start = 0, b_end = 5\<rparr>"
  have h: "0 \<le> b_start ?b" "b_start ?b \<le> int (length scenario_A)" by simp_all
  have l: "int (length scenario_A) = 4" by (simp add: scenario_A_def)
  have r: "loop_range 4 ?b = [0, 1, 2, 3]"
    by (simp add: loop_range_def clamp_end_def Let_def upto_rec1)
  have z: "(0::int) \<le> 0" by simp
  from C8_deadline_between_iterations [OF coords_fit_scenario_A h, of 0 "\<lambda>c. 0",
      THEN conjunct2, THEN conjunct1, rule_format, OF z]
  have a: "runthread_local (program_env scenario_A 0 (\<lambda>c. 0)) ?b
       = Inr \<lparr>local_best_length = 14,
              local_best_path = Some \<lparr>path = [0, 1, 2, 3], pathcost = 14\<rparr>,
              evaluated = [0, 1, 2, 3]\<rparr>"
    by (simp only: l r fold_adopt_scenario_A)
  from C8_deadline_between_iterations [OF coords_fit_scenario_A h, of 5 "\<lambda>c. 10",
      THEN conjunct2, THEN conjunct2, THEN conjunct1]
  have b: "runthread_local (program_env scenario_A 5 (\<lambda>c. 10)) ?b
       = Inr \<lparr>local_best_length = INT_MAX, local_best_path = None, evaluated = []\<rparr>"
    by (simp add: init_worker_def)
  have t: "takeWhile (\<lambda>c. \<not> deadline_passed
             (program_env scenario_A 5 (\<lambda>c. if c < 2 then 1 else 10)) c) [0, 1, 2, 3] = [0, 1]"
    by (simp add: deadline_passed_def program_env_simps)
  from C8_deadline_between_iterations [OF coords_fit_scenario_A h, of 5 "\<lambda>c. if c < 2 then 1 else 10", THEN conjunct1]
  have "runthread_local (program_env scenario_A 5 (\<lambda>c. if c < 2 then 1 else 10)) ?b
       = Inr (fold (adopt (program_env scenario_A 5 (\<lambda>c. if c < 2 then 1 else 10))) [0, 1]
                init_worker)"
    by (simp only: l r t)
  then have c: "runthread_local (program_env scenario_A 5 (\<lambda>c. if c < 2 then 1 else 10)) ?b
       = Inr \<lparr>local_best_length = 14,
              local_best_path = Some \<lparr>path = [0, 1, 2, 3], pathcost = 14\<rparr>,
              evaluated = [0, 1]\<rparr>"
    by (simp add: adopt_def tour_cost_scenario_A tour_from_scenario_A init_worker_def INT_MAX_def)
  from coords_fit_scenario_A h a b c show ?thesis by blast
qed

text \<open>
  Claim C10, as stated, at the start offset -1 (\<open>-s -1\<close>) on the four cities of
  scenario A with one thread: the thread's start -1 passes the guard of
  \<open>runthread\<close>, \<open>calcPath\<close> is called with start city -1, which lies in
  \<open>[startOffset, N)\<close>, and \<open>inpath[-1]\<close> is outside the vector.
\<close>

theorem C10_negative_start_counterexample:
  "b_start (thread_bounds 4 (- 1) 1 0) = - 1
   \<and> calcPath (initCosts scenario_A) scenario_A (- 1) new_Path = Inl OutOfBounds
   \<and> runthread_local (program_env scenario_A 0 (\<lambda>c. 0)) (thread_bounds 4 (- 1) 1 0)
       = Inl (OutOfBounds, [- 1])
   \<and> tsp_main scenario_A (- 1) 1 0 (\<lambda>c. 0) [0] = Inl OutOfBounds"
proof -
  have l: "length scenario_A = 4" by (simp add: scenario_A_def)
  have b: "thread_bounds 4 (- 1) 1 0 = \<lparr>b_start = - 1, b_end = 5\<rparr>"
    by (simp add: thread_bounds_def c_div_def)
  have c: "calcPath cm scenario_A (- 1) new_Path = Inl OutOfBounds" for cm
    by (simp add: calcPath_def)
  have r: "runthread_local (program_env scenario_A 0 (\<lambda>c. 0)) \<lparr>b_start = - 1, b_end = 5\<rparr>
       = Inl (OutOfBounds, [- 1])"
    by (simp add: runthread_local_def program_env_simps l clamp_end_def
        run_loop.simps [of _ "- 1"] c)
  have "tsp_main scenario_A (- 1) 1 0 (\<lambda>c. 0) [0] = Inl OutOfBounds"
    using r by (simp add: tsp_main_def search_def l b)
  with b c r show ?thesis by simp
qed

text \<open>
  Claim C10, amended. The bound \<open>main\<close> stores for the last thread is one past the
  city count; every thread clamps its end to the city count. For a start offset
  \<open>s\<close> with \<open>0 \<le> s \<le> N\<close> every thread returns the loop of \<open>runthread\<close> run over
  its clamped range (cut at the first passed stop-time check); every city of that
  range lies in \<open>[s, N)\<close>, and \<open>calcPath\<close> from it returns a tour of the city
  indices \<open>[0, N)\<close> on the \<open>N \<times> N\<close> matrix, so no index leaves its vector. The
  clamped ranges of the threads \<open>0, 1, ...\<close> are, one after the other,
  \<open>s, s + 1, ..., N - 1\<close>; with no stop time every thread runs its whole range,
  so each start city of \<open>[s, N)\<close> is evaluated exactly once.
\<close>

theorem C10_clamp_covers_once:
  assumes cf: "coords_fit cs"
    and s0: "0 \<le> s" and sn: "s \<le> int (length cs)" and w1: "1 \<le> w"
  shows "b_end (thread_bounds (int (length cs)) s w (nat w - 1)) = int (length cs) + 1
     \<and> square (length cs) (cost_matrix (program_env cs stop clk))
     \<and> (\<forall>i < nat w.
           b_end (clamp_end (int (length cs)) (thread_bounds (int (length cs)) s w i))
             \<le> int (length cs)
         \<and> runthread_local (program_env cs stop clk) (thread_bounds (int (length cs)) s w i)
             = Inr (fold (adopt (program_env cs stop clk))
                      (takeWhile (\<lambda>c. \<not> deadline_passed (program_env cs stop clk) c)
                         (loop_range (int (length cs)) (thread_bounds (int (length cs)) s w i)))
                      init_worker)
         \<and> (\<forall>c \<in> set (loop_range (int (length cs)) (thread_bounds (int (length cs)) s w i)).
               s \<le> c \<and> c < int (length cs)
             \<and> calcPath (cost_matrix (program_env cs stop clk))
                  (cities (program_env cs stop clk)) c new_Path
                 = Inr (tour_from (program_env cs stop clk) c)
             \<and> is_tour (cost_matrix (program_env cs stop clk)) (length cs) c
                  (tour_from (program_env cs stop clk) c)))
     \<and> concat (map (\<lambda>i. loop_range (int (length cs)) (thread_bounds (int (length cs)) s w i))
                 [0..<nat w])
         = [s..int (length cs) - 1]
     \<and> (stop \<le> 0 \<longrightarrow>
           (\<forall>i < nat w.
              runthread_local (program_env cs stop clk) (thread_bounds (int (length cs)) s w i)
                = Inr (fold (adopt (program_env cs stop clk))
                         (loop_range (int (length cs)) (thread_bounds (int (length cs)) s w i))
                         init_worker))
         \<and> concat (map (\<lambda>i. evaluated (projr (runthread_local (program_env cs stop clk)
                                  (thread_bounds (int (length cs)) s w i))))
                    [0..<nat w])
             = [s..int (length cs) - 1])"
proof -
  let ?N = "int (length cs)"
  let ?E = "program_env cs stop clk"
  let ?b = "\<lambda>i. thread_bounds ?N s w i"
  let ?xs = "\<lambda>i. takeWhile (\<lambda>c. \<not> deadline_passed ?E c) (loop_range ?N (?b i))"
  have st: "0 \<le> b_start (?b i) \<and> s \<le> b_start (?b i) \<and> b_start (?b i) \<le> ?N" if "i < nat w" for i
    using thread_start_in_range [OF sn w1 that] s0 by simp
  have run: "runthread_local ?E (?b i) = Inr (fold (adopt ?E) (?xs i) init_worker)"
    if "i < nat w" for i
    using st [OF that] cf by (intro runthread_local_closed) simp_all
  have inr: "s \<le> c \<and> c < ?N
      \<and> calcPath (cost_matrix ?E) (cities ?E) c new_Path = Inr (tour_from ?E c)
      \<and> is_tour (cost_matrix ?E) (length cs) c (tour_from ?E c)"
    if i: "i < nat w" and c: "c \<in> set (loop_range ?N (?b i))" for i c
  proof -
    from c have "b_start (?b i) \<le> c \<and> c < ?N" by (rule loop_range_bounds)
    then have cr: "s \<le> c" "c < ?N" "0 \<le> c" using st [OF i] by simp_all
    from tour_from_program [OF cf cr(3) cr(2), of stop clk] cr
    show ?thesis by (simp add: program_env_simps)
  qed
  have per: "b_end (clamp_end ?N (?b i)) \<le> ?N
         \<and> runthread_local ?E (?b i) = Inr (fold (adopt ?E) (?xs i) init_worker)
         \<and> (\<forall>c \<in> set (loop_range ?N (?b i)).
               s \<le> c \<and> c < ?N
             \<and> calcPath (cost_matrix ?E) (cities ?E) c new_Path = Inr (tour_from ?E c)
             \<and> is_tour (cost_matrix ?E) (length cs) c (tour_from ?E c))" if i: "i < nat w" for i
    using run [OF i] clamped_end_le [of ?N "?b i"] inr [OF i] by blast
  have xs_nd: "?xs i = loop_range ?N (?b i)" if "stop \<le> 0" for i
    using that by (simp add: deadline_passed_def program_env_simps)
  have run_nd: "runthread_local ?E (?b i) = Inr (fold (adopt ?E) (loop_range ?N (?b i)) init_worker)"
    if nd: "stop \<le> 0" and i: "i < nat w" for i
    using run [OF i] by (simp only: xs_nd [OF nd])
  have all: "concat (map (\<lambda>i. evaluated (projr (runthread_local ?E (?b i)))) [0..<nat w])
           = [s..?N - 1]" if nd: "stop \<le> 0"
  proof -
    have "evaluated (projr (runthread_local ?E (?b i))) = loop_range ?N (?b i)"
      if "i \<in> set [0..<nat w]" for i
    proof -
      have i: "i < nat w" using that by simp
      show ?thesis
        by (simp add: run_nd [OF nd i] evaluated_fold_adopt init_worker_def)
    qed
    then have "map (\<lambda>i. evaluated (projr (runthread_local ?E (?b i)))) [0..<nat w] =
               map (\<lambda>i. loop_range ?N (?b i)) [0..<nat w]"
      by (intro map_cong) auto
    then show ?thesis by (simp only: partition_exact [OF sn w1])
  qed
  have sq: "square (length cs) (cost_matrix ?E)"
    by (simp add: program_env_simps initCosts_square)
  from last_bound_past [OF sn w1] sq per partition_exact [OF sn w1] run_nd all
  show ?thesis by blast
qed

theorem C10_clamp_covers_once_witness:
  "coords_fit scenario_A \<and> (0::int) \<le> 0 \<and> 0 \<le> int (length scenario_A) \<and> (1::int) \<le> 3
   \<and> b_end (thread_bounds 4 0 3 2) = 5
   \<and> b_end (clamp_end 4 (thread_bounds 4 0 3 2)) = 4
   \<and> runthread_local (program_env scenario_A 0 (\<lambda>c. 0)) (thread_bounds 4 0 3 2)
       = Inr \<lparr>local_best_length = 14,
              local_best_path = Some \<lparr>path = [2, 3, 0, 1], pathcost = 14\<rparr>,
              evaluated = [2, 3]\<rparr>
   \<and> concat (map (\<lambda>i. evaluated (projr (runthread_local (program_env scenario_A 0 (\<lambda>c. 0))
                                  (thread_bounds 4 0 3 i))))
              [0..<nat 3]) = [0, 1, 2, 3]"
proof -
  have h: "(0::int) \<le> 0" "0 \<le> int (length scenario_A)" "(1::int) \<le> 3" by simp_all
  have l: "int (length scenario_A) = 4" by (simp add: scenario_A_def)
  have u: "[0..(3::int)] = [0, 1, 2, 3]" by (simp add: upto_rec1)
  have e: "b_end (thread_bounds 4 0 3 2) = 5" "b_end (clamp_end 4 (thread_bounds 4 0 3 2)) = 4"
    by (simp_all add: thread_bounds_def c_div_def clamp_end_def)
  have r: "loop_range 4 (thread_bounds 4 0 3 2) = [2, 3]"
    by (simp add: loop_range_def thread_bounds_def c_div_def clamp_end_def Let_def upto_rec1)
  have f: "fold (adopt (program_env scenario_A 0 (\<lambda>c. 0))) [2, 3] init_worker
       = \<lparr>local_best_length = 14,
          local_best_path = Some \<lparr>path = [2, 3, 0, 1], pathcost = 14\<rparr>,
          evaluated = [2, 3]\<rparr>"
    by (simp add: adopt_def tour_cost_scenario_A tour_from_scenario_A_2 init_worker_def INT_MAX_def)
  note t = C10_clamp_covers_once [OF coords_fit_scenario_A h, of 0 "\<lambda>c. 0"]
  have two: "(2::nat) < nat 3" by simp
  from t have "\<forall>i < nat 3.
      runthread_local (program_env scenario_A 0 (\<lambda>c. 0)) (thread_bounds (int (length scenario_A)) 0 3 i)
        = Inr (fold (adopt (program_env scenario_A 0 (\<lambda>c. 0)))
                 (loop_range (int (length scenario_A)) (thread_bounds (int (length scenario_A)) 0 3 i))
                 init_worker)"
    by blast
  with two have a: "runthread_local (program_env scenario_A 0 (\<lambda>c. 0)) (thread_bounds 4 0 3 2)
       = Inr \<lparr>local_best_length = 14,
              local_best_path = Some \<lparr>path = [2, 3, 0, 1], pathcost = 14\<rparr>,
              evaluated = [2, 3]\<rparr>"
    by (simp only: l r f)
  from t have c: "concat (map (\<lambda>i. evaluated (projr (runthread_local (program_env scenario_A 0 (\<lambda>c. 0))
                                  (thread_bounds 4 0 3 i))))
              [0..<nat 3]) = [0, 1, 2, 3]"
    by (simp add: l u)
  from coords_fit_scenario_A h e a c show ?thesis by blast
qed

section \<open>The shortest tour over all threads\<close>

lemma run_threads_closed:
  "(\<And>b. b \<in> set bs \<Longrightarrow> \<exists>wk. runthread_local E b = Inr wk) \<Longrightarrow>
   run_threads E bs g = Inr (fold (\<lambda>b. offer (projr (runthread_local E b))) bs g)"
proof (induction bs arbitrary: g)
  case Nil
  then show ?case by simp
next
  case (Cons b bs)
  from Cons.prems [of b] obtain wk where wk: "runthread_local E b = Inr wk" by auto
  have "run_threads E bs (offer wk g) =
      Inr (fold (\<lambda>b. offer (projr (runthread_local E b))) bs (offer wk g))"
    using Cons.prems by (intro Cons.IH) auto
  then show ?case using wk by simp
qed

lemma length_offer: "global_best_length (offer wk g) = min (global_best_length g) (local_best_length wk)"
  by (simp add: offer_def)

lemma length_fold_offer:
  "global_best_length (fold (\<lambda>b. offer (W b)) bs g) =
     Min (insert (global_best_length g) ((\<lambda>b. local_best_length (W b)) ` set bs))"
proof (induction bs arbitrary: g)
  case Nil
  then show ?case by simp
next
  case (Cons b bs)
  have "Min (insert (min (global_best_length g) (local_best_length (W b)))
              ((\<lambda>b. local_best_length (W b)) ` set bs)) =
        Min (insert (global_best_length g) (insert (local_best_length (W b))
              ((\<lambda>b. local_best_length (W b)) ` set bs)))"
    by (cases "set bs = {}") (simp_all add: min.assoc)
  then show ?case using Cons by (simp add: length_offer)
qed

lemma Min_of_Mins:
  assumes fin: "finite I" and finR: "\<And>i. i \<in> I \<Longrightarrow> finite (R i)"
  shows "Min (insert (a::int) ((\<lambda>i. Min (insert a (f ` R i))) ` I)) = Min (insert a (f ` (\<Union>i\<in>I. R i)))"
proof (rule sym, rule Min_eqI)
  let ?L = "\<lambda>i. Min (insert a (f ` R i))"
  let ?m = "Min (insert a (?L ` I))"
  show "finite (insert a (f ` (\<Union>i\<in>I. R i)))" using fin finR by simp
  have finL: "finite (insert a (?L ` I))" using fin by simp
  have ma: "?m \<le> a" using finL by (intro Min_le) simp_all
  show "?m \<le> y" if yin: "y \<in> insert a (f ` (\<Union>i\<in>I. R i))" for y
  proof (cases "y = a")
    case True
    then show ?thesis using ma by simp
  next
    case False
    with yin obtain i c where i: "i \<in> I" and c: "c \<in> R i" and y: "y = f c" by auto
    have "?m \<le> ?L i" using finL i by (intro Min_le) simp_all
    also have "?L i \<le> f c" using finR [OF i] c by (intro Min_le) simp_all
    finally show ?thesis using y by simp
  qed
  have "?m \<in> insert a (?L ` I)" using finL by (intro Min_in) simp_all
  then show "?m \<in> insert a (f ` (\<Union>i\<in>I. R i))"
  proof
    assume "?m = a" then show ?thesis by simp
  next
    assume "?m \<in> ?L ` I"
    then obtain i where i: "i \<in> I" and m: "?m = ?L i" by auto
    have "?L i \<in> insert a (f ` R i)" using finR [OF i] by (intro Min_in) simp_all
    then show ?thesis using m i by auto
  qed
qed

lemma tour_cost_program:
  "tour_cost (program_env cs stop clk) c = tour_cost (program_env cs stop' clk') c"
  by (simp add: tour_cost_def tour_from_def program_env_simps)

lemma search_length:
  assumes cf: "coords_fit cs"
    and s0: "0 \<le> s" and sn: "s \<le> int (length cs)" and w1: "1 \<le> w"
    and nd: "stop \<le> 0" and sch: "schedule w order"
  shows "\<exists>g. search cs s w stop clk order = Inr g
     \<and> global_best_length g =
         Min (insert INT_MAX (tour_cost (program_env cs stop clk) ` {s..<int (length cs)}))"
proof -
  let ?N = "int (length cs)"
  let ?E = "program_env cs stop clk"
  let ?tb = "thread_bounds ?N s w"
  let ?I = "{0..<nat w}"
  let ?g0 = "\<lparr>global_best_length = INT_MAX, global_best_path = None\<rparr>"
  let ?W = "\<lambda>b. projr (runthread_local ?E b)"
  have ord: "set order = ?I" using sch by (simp add: schedule_def)
  have bs: "map (\<lambda>i. map ?tb [0..<nat w] ! i) order = map ?tb order"
    using ord by (intro map_cong) auto
  have run: "runthread_local ?E (?tb i) =
      Inr (fold (adopt ?E) (loop_range ?N (?tb i)) init_worker)" if "i \<in> ?I" for i
  proof -
    have i: "i < nat w" using that by simp
    have st: "0 \<le> b_start (?tb i)" "b_start (?tb i) \<le> ?N"
      using thread_start_in_range [OF sn w1 i] s0 by simp_all
    have tw: "takeWhile (\<lambda>c. \<not> deadline_passed ?E c) (loop_range ?N (?tb i)) = loop_range ?N (?tb i)"
      using nd by (simp add: deadline_passed_def program_env_simps)
    from runthread_local_closed [OF cf st, of stop clk] show ?thesis by (simp only: tw)
  qed
  have ok: "\<exists>wk. runthread_local ?E b = Inr wk" if "b \<in> set (map ?tb order)" for b
    using that run ord by auto
  have s: "search cs s w stop clk order = Inr (fold (\<lambda>b. offer (?W b)) (map ?tb order) ?g0)"
    using w1 run_threads_closed [of "map ?tb order" ?E ?g0, OF ok]
    by (simp add: search_def Let_def bs)
  have lw: "local_best_length (?W (?tb i)) =
      Min (insert INT_MAX (tour_cost ?E ` set (loop_range ?N (?tb i))))" if "i \<in> ?I" for i
    using run [OF that] by (simp add: length_fold_adopt init_worker_def)
  have un: "(\<Union>i\<in>?I. set (loop_range ?N (?tb i))) = {s..<?N}"
  proof -
    have "(\<Union>i\<in>?I. set (loop_range ?N (?tb i))) =
          set (concat (map (\<lambda>i. loop_range ?N (?tb i)) [0..<nat w]))"
      by auto
    also have "\<dots> = set [s..?N - 1]" by (simp only: partition_exact [OF sn w1])
    also have "\<dots> = {s..<?N}" by auto
    finally show ?thesis .
  qed
  have "global_best_length (fold (\<lambda>b. offer (?W b)) (map ?tb order) ?g0) =
        Min (insert INT_MAX ((\<lambda>b. local_best_length (?W b)) ` set (map ?tb order)))"
    by (simp add: length_fold_offer)
  also have "(\<lambda>b. local_best_length (?W b)) ` set (map ?tb order) =
             (\<lambda>i. local_best_length (?W (?tb i))) ` ?I"
    by (simp add: ord image_image)
  also have "\<dots> = (\<lambda>i. Min (insert INT_MAX (tour_cost ?E ` set (loop_range ?N (?tb i))))) ` ?I"
    using lw by (intro image_cong) auto
  also have "Min (insert INT_MAX \<dots>) =
      Min (insert INT_MAX (tour_cost ?E ` (\<Union>i\<in>?I. set (loop_range ?N (?tb i)))))"
    by (rule Min_of_Mins) simp_all
  finally show ?thesis using s un by simp
qed

lemma getCost_program_bound:
  assumes cf: "coords_fit cs" and a: "0 \<le> a" "a < int (length cs)" and b: "0 \<le> b" "b < int (length cs)"
  shows "getCost (initCosts cs) a b \<le> 46341"
proof -
  have ab: "nat a < length cs" "nat b < length cs" using a b by simp_all
  then have "dist2 cs (nat a) (nat b) \<le> INT_MAX" using cf by (simp add: coords_fit_def)
  then have "round_sqrt (dist2 cs (nat a) (nat b)) \<le> 46341" by (rule round_sqrt_bound)
  then show ?thesis using ab by (simp add: getCost_def initCosts_nth)
qed

lemma tour_cost_fits:
  assumes cf: "coords_fit cs" and n: "length cs \<le> 46340"
    and c: "0 \<le> c" "c < int (length cs)"
  shows "tour_cost (program_env cs stop clk) c \<le> INT_MAX"
proof -
  let ?n = "length cs"
  define p where "p = tour_from (program_env cs stop clk) c"
  have t: "is_tour (initCosts cs) ?n c p"
    unfolding p_def using tour_from_program [OF cf c] by blast
  have len: "length (path p) = ?n" and st: "set (path p) = {0..<int ?n}"
    and cost: "pathcost p = (\<Sum>j<?n - 1. getCost (initCosts cs) (path p ! j) (path p ! Suc j))
                    + getCost (initCosts cs) (path p ! (?n - 1)) (path p ! 0)"
    using t by (simp_all add: is_tour_def)
  have n1: "1 \<le> ?n" using c by simp
  have el: "0 \<le> path p ! j \<and> path p ! j < int ?n" if "j < ?n" for j
  proof -
    have "path p ! j \<in> set (path p)" using that len by simp
    then show ?thesis using st by simp
  qed
  have e: "getCost (initCosts cs) (path p ! i) (path p ! j) \<le> 46341" if "i < ?n" "j < ?n" for i j
    using el [OF that(1)] el [OF that(2)] cf by (intro getCost_program_bound) simp_all
  have "(\<Sum>j<?n - 1. getCost (initCosts cs) (path p ! j) (path p ! Suc j))
        \<le> (\<Sum>j<?n - 1. 46341)"
    by (intro sum_mono e) auto
  then have "(\<Sum>j<?n - 1. getCost (initCosts cs) (path p ! j) (path p ! Suc j))
        \<le> int (?n - 1) * 46341" by simp
  moreover have "getCost (initCosts cs) (path p ! (?n - 1)) (path p ! 0) \<le> 46341"
    using n1 by (intro e) auto
  ultimately have "pathcost p \<le> int (?n - 1) * 46341 + 46341" using cost by linarith
  also have "\<dots> = int ?n * 46341" using n1 by (simp add: algebra_simps)
  also have "\<dots> \<le> 46340 * 46341" using n by simp
  finally show ?thesis by (simp add: tour_cost_def p_def INT_MAX_def)
qed

text \<open>
  Claim C7. With no stop time, for a start offset \<open>s\<close> with \<open>0 \<le> s \<le> N\<close>, the
  search with one thread and the search with \<open>k > 1\<close> threads, in whatever order
  the threads take the mutex, both return, and leave the same
  \<open>global_best_length\<close>: the least of \<open>INT_MAX\<close> and the tour costs of the start
  cities in \<open>[s, N)\<close>. When there is a start city and at most 46340 cities (so
  that no tour cost exceeds \<open>INT_MAX\<close>) it is the least tour cost.
\<close>

theorem C7_cost_independent_of_threads:
  assumes cf: "coords_fit cs"
    and s0: "0 \<le> s" and sn: "s \<le> int (length cs)" and k1: "1 < k"
    and nd: "stop \<le> 0" and o1: "schedule 1 order1" and ok: "schedule k orderk"
  shows "\<exists>g1 gk. search cs s 1 stop clk1 order1 = Inr g1
      \<and> search cs s k stop clkk orderk = Inr gk
      \<and> global_best_length g1 = global_best_length gk
      \<and> global_best_length gk =
          Min (insert INT_MAX (tour_cost (program_env cs stop clkk) ` {s..<int (length cs)}))
      \<and> (s < int (length cs) \<and> length cs \<le> 46340 \<longrightarrow>
            global_best_length gk =
              Min (tour_cost (program_env cs stop clkk) ` {s..<int (length cs)}))"
proof -
  let ?N = "int (length cs)"
  let ?C = "tour_cost (program_env cs stop clkk) ` {s..<?N}"
  from search_length [OF cf s0 sn _ nd o1, of clk1] obtain g1 where
    g1: "search cs s 1 stop clk1 order1 = Inr g1"
    "global_best_length g1 = Min (insert INT_MAX (tour_cost (program_env cs stop clk1) ` {s..<?N}))"
    by auto
  have kk: "1 \<le> k" using k1 by simp
  from search_length [OF cf s0 sn kk nd ok, of clkk] obtain gk where
    gk: "search cs s k stop clkk orderk = Inr gk"
    "global_best_length gk = Min (insert INT_MAX ?C)"
    by auto
  have same: "tour_cost (program_env cs stop clk1) = tour_cost (program_env cs stop clkk)"
    by (rule ext) (rule tour_cost_program)
  have eq: "global_best_length g1 = global_best_length gk"
    using g1 gk by (simp add: same)
  have fit: "Min (insert INT_MAX ?C) = Min ?C" if "s < ?N \<and> length cs \<le> 46340"
  proof -
    have ne: "?C \<noteq> {}" using that by simp
    have "Min ?C \<le> INT_MAX"
    proof -
      have "Min ?C \<in> ?C" using ne by (intro Min_in) simp_all
      then obtain c where "s \<le> c" "c < ?N" "Min ?C = tour_cost (program_env cs stop clkk) c"
        by auto
      then show ?thesis using tour_cost_fits [OF cf, of c stop clkk] that s0 by simp
    qed
    moreover have "Min (insert INT_MAX ?C) = min INT_MAX (Min ?C)"
      using ne by (intro Min_insert) simp_all
    ultimately show ?thesis by (simp only: min_absorb2)
  qed
  from g1(1) gk eq fit show ?thesis by auto
qed

theorem C7_cost_independent_of_threads_witness:
  "coords_fit scenario_A \<and> (0::int) \<le> 0 \<and> 0 \<le> int (length scenario_A) \<and> (1::int) < 2
   \<and> (0::int) \<le> 0 \<and> schedule 1 [0] \<and> schedule 2 [1, 0]
   \<and> (\<exists>g1 gk. search scenario_A 0 1 0 (\<lambda>c. 0) [0] = Inr g1
         \<and> search scenario_A 0 2 0 (\<lambda>c. 0) [1, 0] = Inr gk
         \<and> global_best_length g1 = 14 \<and> global_best_length gk = 14)"
proof -
  have h: "(0::int) \<le> 0" "0 \<le> int (length scenario_A)" "(1::int) < 2" by simp_all
  have l: "int (length scenario_A) = 4" by (simp add: scenario_A_def)
  have m: "Min (insert INT_MAX (tour_cost (program_env scenario_A 0 (\<lambda>c. 0)) ` {0..<4})) = 14"
    by (simp add: range4 tour_cost_scenario_A INT_MAX_def)
  from C7_cost_independent_of_threads [OF coords_fit_scenario_A h(1) h(2) h(3) h(1) schedule_examples,
      of "\<lambda>c. 0" "\<lambda>c. 0"]
  obtain g1 gk where "search scenario_A 0 1 0 (\<lambda>c. 0) [0] = Inr g1"
    "search scenario_A 0 2 0 (\<lambda>c. 0) [1, 0] = Inr gk"
    "global_best_length g1 = global_best_length gk"
    "global_best_length gk =
       Min (insert INT_MAX (tour_cost (program_env scenario_A 0 (\<lambda>c. 0)) ` {0..<int (length scenario_A)}))"
    by blast
  then have "\<exists>g1 gk. search scenario_A 0 1 0 (\<lambda>c. 0) [0] = Inr g1
         \<and> search scenario_A 0 2 0 (\<lambda>c. 0) [1, 0] = Inr gk
         \<and> global_best_length g1 = 14 \<and> global_best_length gk = 14"
    by (simp add: l m)
  with coords_fit_scenario_A h schedule_examples show ?thesis by blast
qed

section \<open>Runs that end in an error\<close>

lemma thread_start_exceeds:
  assumes sn: "sz < s" and w1: "1 \<le> w" and i: "i < nat w"
  shows "sz < b_start (thread_bounds sz s w i)"
proof -
  define q where "q = (s - sz) div w"
  have cd: "c_div (sz - s) w = - q"
    using sn w1 by (simp add: c_div_def q_def)
  have st: "b_start (thread_bounds sz s w i) = s - int i * q"
    by (simp add: thread_bounds_def Let_def cd)
  have q0: "0 \<le> q" using sn w1 by (simp add: q_def pos_imp_zdiv_nonneg_iff)
  have wq: "w * q \<le> s - sz"
    unfolding q_def using sn w1 range_times_le [of "s - sz" w w] by simp
  have "int i * q < s - sz"
  proof (cases "q = 0")
    case True
    then show ?thesis using sn by simp
  next
    case False
    then have "1 \<le> q" using q0 by simp
    have "int i \<le> w - 1" using i by simp
    then have "int i * q \<le> (w - 1) * q" using q0 by (rule mult_right_mono)
    also have "\<dots> = w * q - q" by (simp add: algebra_simps)
    also have "\<dots> < s - sz" using wq \<open>1 \<le> q\<close> by simp
    finally show ?thesis .
  qed
  then show ?thesis using st by simp
qed

lemma runthread_local_exceeds:
  "int (length (cities E)) < b_start b \<Longrightarrow> runthread_local E b = Inl (StartCityExceeds, [])"
  by (simp add: runthread_local_def Let_def)

text \<open>
  Claim C2, as stated, at a non-positive worker count. With 0 threads \<open>main\<close>
  divides by the thread count, with -1 threads it builds a vector of negative
  size; in neither run does the program report a configuration error.
\<close>

theorem C2_worker_count_counterexample:
  "tsp_main scenario_A 0 0 0 (\<lambda>c. 0) [] = Inl DivisionByZero
   \<and> \<not> reports_config_error (tsp_main scenario_A 0 0 0 (\<lambda>c. 0) [])
   \<and> tsp_main scenario_A 0 (- 1) 0 (\<lambda>c. 0) [] = Inl LengthError
   \<and> \<not> reports_config_error (tsp_main scenario_A 0 (- 1) 0 (\<lambda>c. 0) [])"
  by (simp add: tsp_main_def search_def reports_config_error_def)

text \<open>
  Claim C2, amended. For at least one thread and a start offset that exceeds the
  city count, every thread finds its start beyond the city count at the first
  statement of \<open>runthread\<close>, before it has called \<open>calcPath\<close> (its history is
  empty), and the program reports \<open>Start city exceeds city count\<close> and exits with
  status -1.
\<close>

theorem C2_start_exceeds_reported:
  assumes sn: "int (length cs) < s" and w1: "1 \<le> w" and sch: "schedule w order"
  shows "tsp_main cs s w stop clk order = Inl StartCityExceeds
     \<and> reports_config_error (tsp_main cs s w stop clk order)
     \<and> (\<forall>i < nat w. runthread_local (program_env cs stop clk)
                        (thread_bounds (int (length cs)) s w i) = Inl (StartCityExceeds, []))"
proof -
  let ?N = "int (length cs)"
  let ?E = "program_env cs stop clk"
  let ?tb = "thread_bounds ?N s w"
  have ex: "runthread_local ?E (?tb i) = Inl (StartCityExceeds, [])" if "i < nat w" for i
    using thread_start_exceeds [OF sn w1 that]
    by (intro runthread_local_exceeds) (simp add: program_env_simps)
  have ord: "set order = {0..<nat w}" using sch by (simp add: schedule_def)
  then have "order \<noteq> []" using w1 by auto
  then obtain j js where oj: "order = j # js" by (cases order) auto
  then have j: "j < nat w" using ord by auto
  have "map ?tb [0..<nat w] ! j = ?tb j" using j by simp
  then have "search cs s w stop clk order = Inl StartCityExceeds"
    using w1 ex [OF j] by (simp add: search_def Let_def oj)
  then have "tsp_main cs s w stop clk order = Inl StartCityExceeds"
    by (simp add: tsp_main_def)
  then show ?thesis using ex by (simp add: reports_config_error_def)
qed

theorem C2_start_exceeds_reported_witness:
  "int (length scenario_A) < 6 \<and> (1::int) \<le> 2 \<and> schedule 2 [1, 0]
   \<and> tsp_main scenario_A 6 2 0 (\<lambda>c. 0) [1, 0] = Inl StartCityExceeds
   \<and> runthread_local (program_env scenario_A 0 (\<lambda>c. 0)) (thread_bounds 4 6 2 1)
        = Inl (StartCityExceeds, [])"
proof -
  have h: "int (length scenario_A) < 6" "(1::int) \<le> 2" by (simp_all add: scenario_A_def)
  have s: "schedule 2 [1, 0]" by (auto simp: schedule_def)
  have l: "int (length scenario_A) = 4" by (simp add: scenario_A_def)
  have "(1::nat) < nat 2" by simp
  with C2_start_exceeds_reported [OF h s, of 0 "\<lambda>c. 0"] show ?thesis using h s by (simp add: l)
qed

text \<open>
  Claim C3, on the code. With no city at all, or with the start offset equal to
  the city count, no thread builds a tour, \<open>global_best_path\<close> stays null, and
  \<open>main\<close> calls \<open>printPath\<close> through the null pointer: no diagnostic is printed
  and the program does not exit with an error status of its own.
\<close>

theorem C3_no_tour_null_pointer:
  "tsp_main [] 0 1 0 (\<lambda>c. 0) [0] = Inl NullPointer
   \<and> tsp_main scenario_A 4 1 0 (\<lambda>c. 0) [0] = Inl NullPointer
   \<and> \<not> reports_config_error (tsp_main [] 0 1 0 (\<lambda>c. 0) [0])"
  by (simp add: tsp_main_def search_def program_env_def runthread_local_def
      thread_bounds_def c_div_def clamp_end_def run_loop.simps offer_def scenario_A_def
      reports_config_error_def Let_def)

end
